theory Spec2Isabelle
  imports Main "HOL-Library.Word"
begin

section \<open>Data model of \<^verbatim>\<open>Buffer<N, allocator>\<close>\<close>

text \<open>
  The development embeds \<^verbatim>\<open>src/Buffer/Buffer.hpp\<close>.  Conventions:

  \<^item> \<open>D\<close> is \<^verbatim>\<open>Block::DATA_SIZE\<close>.  It is derived from \<^verbatim>\<open>allocator::REAL_SIZE\<close>, which
    belongs to a header that is not part of the sources, so it is a parameter of every
    function that uses it.
  \<^item> \<open>nd\<close> is the build flag \<^verbatim>\<open>NDEBUG\<close>: with \<open>nd = False\<close> every \<^verbatim>\<open>assert\<close> of the
    source is checked and a failing one ends the call with \<open>assertion_failed\<close>; with
    \<open>nd = True\<close> the assertions are compiled out.
  \<^item> A \<^verbatim>\<open>Block *\<close> is represented by the \<^verbatim>\<open>id\<close> of the block it points to (ids are
    unique among the blocks of a buffer), and a \<^verbatim>\<open>char *\<close> into a block by its
    offset from \<^verbatim>\<open>block->begin()\<close>; so \<^verbatim>\<open>block->begin()\<close> is offset \<open>0\<close> and
    \<^verbatim>\<open>block->end()\<close> is offset \<open>D\<close>.  \<^verbatim>\<open>m_begin\<close> is an offset into the first block and
    \<^verbatim>\<open>m_end\<close> one into the last block, as every assignment of the source keeps them.
  \<^item> \<^verbatim>\<open>size_t\<close> values are natural numbers.  The one computation of the source
    whose intermediate results wrap around by design, \<^verbatim>\<open>iterator::operator-\<close>, is
    carried out on 64-bit words.
  \<^item> Following a \<^verbatim>\<open>next()\<close> or \<^verbatim>\<open>prev()\<close> link off the list, or a \<^verbatim>\<open>memmove\<close> that
    leaves the data area of a block, is the error \<open>invalid_access\<close>.
  \<^item> \<open>ord\<close> is the order in which the two operands of the subtraction in \<^verbatim>\<open>flush\<close> are
    evaluated, which the language leaves open.
\<close>

type_synonym byte = char

record block =
  block_id :: nat
  data :: "byte list"

record iterator =
  m_block :: nat
  m_position :: nat

record iovec =
  iov_base :: "nat \<times> nat"
  iov_len :: nat

record buffer =
  m_blocks :: "block list"
  m_iterators :: "iterator list"
  m_blockId :: nat
  m_begin :: nat
  m_end :: nat
  m_all :: "byte list list"

text \<open>
  \<open>bad_alloc b\<close>: \<^verbatim>\<open>allocate()\<close> threw; \<open>b\<close> is the buffer as stack unwinding left it.
\<close>

datatype error = bad_alloc buffer | assertion_failed | invalid_access

subsection \<open>Allocator\<close>

text \<open>
  Modelled from the spec: the pool allocator (\<^verbatim>\<open>Utils/Mempool.hpp\<close> is not among the
  sources).  \<^verbatim>\<open>allocate()\<close> returns a chunk or raises, committing nothing when it
  raises; \<^verbatim>\<open>deallocate(p)\<close> cannot fail.  The pool is the list of its free chunks, each
  with whatever bytes it holds; \<^verbatim>\<open>allocate()\<close> raises when the pool is exhausted.
\<close>

definition allocate :: "byte list list \<Rightarrow> (byte list \<times> byte list list) option" where
  "allocate pool = (case pool of [] \<Rightarrow> None | c # cs \<Rightarrow> Some (c, cs))"

definition deallocate :: "byte list \<Rightarrow> byte list list \<Rightarrow> byte list list" where
  "deallocate c pool = c # pool"

subsection \<open>Blocks\<close>

text \<open>
  \<^verbatim>\<open>newBlock(addToList)\<close>: the block is linked at the tail of \<open>addToList\<close> with the id
  \<^verbatim>\<open>m_blockId++\<close>.  \<open>None\<close> is the exception of \<^verbatim>\<open>allocate()\<close>.
\<close>

definition newBlock :: "buffer \<Rightarrow> block list \<Rightarrow> (block list \<times> buffer) option" where
  "newBlock b addToList =
     (case allocate (m_all b) of
        None \<Rightarrow> None
      | Some (ptr, pool) \<Rightarrow>
          Some (addToList @ [\<lparr>block_id = m_blockId b, data = ptr\<rparr>],
                b\<lparr>m_blockId := m_blockId b + 1, m_all := pool\<rparr>))"

text \<open>\<^verbatim>\<open>delBlock(b)\<close> for the block at index \<open>i\<close> of the main list.\<close>

definition delBlock :: "buffer \<Rightarrow> nat \<Rightarrow> buffer" where
  "delBlock b i =
     b\<lparr>m_blocks := take i (m_blocks b) @ drop (Suc i) (m_blocks b),
       m_all := deallocate (data (m_blocks b ! i)) (m_all b)\<rparr>"

definition delBlockAndPrev :: "buffer \<Rightarrow> nat \<Rightarrow> error + (nat \<times> buffer)" where
  "delBlockAndPrev b i =
     (case i of
        0 \<Rightarrow> Inl invalid_access
      | Suc j \<Rightarrow>
          (if i < length (m_blocks b)
           then Inr (j, (delBlock b i)\<lparr>m_blockId := m_blockId b - 1\<rparr>)
           else Inl invalid_access))"

definition delBlockAndNext :: "buffer \<Rightarrow> nat \<Rightarrow> error + (nat \<times> buffer)" where
  "delBlockAndNext b i =
     (if Suc i < length (m_blocks b) then Inr (i, delBlock b i) else Inl invalid_access)"

text \<open>
  \<^verbatim>\<open>Blocks::~Blocks()\<close>: the destructor of the transient list, run with the blocks the
  list still owns.
\<close>

fun Blocks_dtor :: "block list \<Rightarrow> buffer \<Rightarrow> buffer" where
  "Blocks_dtor [] b = b"
| "Blocks_dtor (x # xs) b =
     Blocks_dtor xs (b\<lparr>m_all := deallocate (data x) (m_all b), m_blockId := m_blockId b - 1\<rparr>)"

text \<open>The chain \<open>p, p->next(), ...\<close> of a block pointer \<open>p\<close>.\<close>

definition blocks_from :: "block list \<Rightarrow> nat \<Rightarrow> block list" where
  "blocks_from bs p = dropWhile (\<lambda>x. block_id x \<noteq> p) bs"

fun block_index :: "block list \<Rightarrow> nat \<Rightarrow> nat option" where
  "block_index [] p = None"
| "block_index (x # xs) p =
     (if block_id x = p then Some 0 else map_option Suc (block_index xs p))"

text \<open>Overwriting the bytes of a block from offset \<open>off\<close> on.\<close>

definition write_block :: "nat \<Rightarrow> byte list \<Rightarrow> block \<Rightarrow> block" where
  "write_block off src x =
     x\<lparr>data := take off (data x) @ src @ drop (off + length src) (data x)\<rparr>"

text \<open>\<^verbatim>\<open>memcpy(p, src, n)\<close> where \<open>p\<close> is offset \<open>off\<close> of the block with id \<open>blk\<close>.\<close>

definition memcpy :: "block list \<Rightarrow> nat \<Rightarrow> nat \<Rightarrow> byte list \<Rightarrow> block list" where
  "memcpy bs blk off src =
     map (\<lambda>x. if block_id x = blk then write_block off src x else x) bs"

text \<open>
  \<^verbatim>\<open>memmove(dst, src, n)\<close> between the blocks at the indices \<open>dst_block\<close> and
  \<open>src_block\<close>.
\<close>

definition memmove ::
  "block list \<Rightarrow> nat \<Rightarrow> nat \<Rightarrow> nat \<Rightarrow> nat \<Rightarrow> nat \<Rightarrow> block list option" where
  "memmove bs dst_block dst src_block src n =
     (if dst_block < length bs \<and> src_block < length bs
         \<and> src + n \<le> length (data (bs ! src_block))
         \<and> dst + n \<le> length (data (bs ! dst_block))
      then Some (bs[dst_block :=
             write_block dst (take n (drop src (data (bs ! src_block)))) (bs ! dst_block)])
      else None)"

section \<open>Iterators\<close>

text \<open>
  \<^verbatim>\<open>operator==\<close> compares \<^verbatim>\<open>m_position\<close>, a pointer.  Two such pointers are equal iff
  they are the same offset of the same block: the data areas of distinct blocks are
  disjoint, and \<^verbatim>\<open>end()\<close> of one block is not \<^verbatim>\<open>begin()\<close> of another because a block header
  lies in front of every data area.
\<close>

definition iter_eq :: "iterator \<Rightarrow> iterator \<Rightarrow> bool" where
  "iter_eq this a = (m_block this = m_block a \<and> m_position this = m_position a)"

definition iter_less :: "iterator \<Rightarrow> iterator \<Rightarrow> bool" where
  "iter_less this a =
     (m_block this < m_block a \<or> (m_block this = m_block a \<and> m_position this < m_position a))"

text \<open>\<^verbatim>\<open>operator-\<close>, on \<^verbatim>\<open>size_t\<close> with its wrap-around.\<close>

definition iter_minus :: "nat \<Rightarrow> iterator \<Rightarrow> iterator \<Rightarrow> 64 word" where
  "iter_minus D this a =
     (let res = (word_of_nat (m_block this) - word_of_nat (m_block a)) * word_of_nat D;
          res = res - word_of_nat (m_position a);
          res = res + word_of_nat (m_position this)
      in res)"

fun moveForward_loop :: "nat \<Rightarrow> block list \<Rightarrow> nat \<Rightarrow> nat \<Rightarrow> error + iterator" where
  "moveForward_loop D [] pos step = Inl invalid_access"
| "moveForward_loop D (x # rest) pos step =
     (if step \<ge> D - pos
      then (case rest of
              [] \<Rightarrow> Inl invalid_access
            | _ # _ \<Rightarrow> moveForward_loop D rest 0 (step - (D - pos)))
      else Inr \<lparr>m_block = block_id x, m_position = pos + step\<rparr>)"

definition moveForward :: "nat \<Rightarrow> bool \<Rightarrow> block list \<Rightarrow> iterator \<Rightarrow> nat \<Rightarrow> error + iterator" where
  "moveForward D nd bs this step =
     (if \<not> (nd \<or> m_position this < D) then Inl assertion_failed
      else moveForward_loop D (blocks_from bs (m_block this)) (m_position this) step)"

fun moveBackward_loop :: "nat \<Rightarrow> block list \<Rightarrow> nat \<Rightarrow> nat \<Rightarrow> nat \<Rightarrow> error + iterator" where
  "moveBackward_loop D bs i pos step =
     (if step > pos
      then (case i of
              0 \<Rightarrow> Inl invalid_access
            | Suc j \<Rightarrow> moveBackward_loop D bs j D (step - pos))
      else if i < length bs
           then Inr \<lparr>m_block = block_id (bs ! i), m_position = pos - step\<rparr>
           else Inl invalid_access)"

definition moveBackward :: "nat \<Rightarrow> bool \<Rightarrow> block list \<Rightarrow> iterator \<Rightarrow> nat \<Rightarrow> error + iterator" where
  "moveBackward D nd bs this step =
     (if \<not> (nd \<or> m_position this < D) then Inl assertion_failed
      else case block_index bs (m_block this) of
             None \<Rightarrow> Inl invalid_access
           | Some i \<Rightarrow> moveBackward_loop D bs i (m_position this) step)"

text \<open>
  \<^verbatim>\<open>adjustPositionForward()\<close> for the iterator at index \<open>k\<close> of the registry: it is
  relinked behind the iterators that follow it and are smaller.  The result is the
  registry and the new index of the iterator.
\<close>

definition adjustPositionForward :: "iterator list \<Rightarrow> nat \<Rightarrow> iterator list \<times> nat" where
  "adjustPositionForward its k =
     (let this = its ! k; pre = take k its; post = drop (Suc k) its
      in if post = [] \<or> \<not> iter_less (hd post) this then (its, k)
         else (let moved = hd post # takeWhile (\<lambda>x. iter_less x this) (tl post)
               in (pre @ moved @ [this] @ drop (length moved) post, k + length moved)))"

text \<open>\<^verbatim>\<open>operator++\<close> and \<^verbatim>\<open>operator+=\<close> of the registered iterator at index \<open>k\<close>.\<close>

definition iterator_add :: "nat \<Rightarrow> bool \<Rightarrow> buffer \<Rightarrow> nat \<Rightarrow> nat \<Rightarrow> error + (buffer \<times> nat)" where
  "iterator_add D nd b k step =
     (if \<not> k < length (m_iterators b) then Inl invalid_access
      else case moveForward D nd (m_blocks b) (m_iterators b ! k) step of
             Inl e \<Rightarrow> Inl e
           | Inr this \<Rightarrow>
               (case adjustPositionForward ((m_iterators b)[k := this]) k of
                  (its, k') \<Rightarrow> Inr (b\<lparr>m_iterators := its\<rparr>, k')))"

definition iterator_inc :: "nat \<Rightarrow> bool \<Rightarrow> buffer \<Rightarrow> nat \<Rightarrow> error + (buffer \<times> nat)" where
  "iterator_inc D nd b k = iterator_add D nd b k 1"

text \<open>\<open>n\<close> times \<^verbatim>\<open>++\<close> on a registered iterator.\<close>

fun iterator_incs :: "nat \<Rightarrow> bool \<Rightarrow> nat \<Rightarrow> buffer \<Rightarrow> nat \<Rightarrow> error + (buffer \<times> nat)" where
  "iterator_incs D nd 0 b k = Inr (b, k)"
| "iterator_incs D nd (Suc n) b k =
     (case iterator_inc D nd b k of
        Inl e \<Rightarrow> Inl e
      | Inr (b', k') \<Rightarrow> iterator_incs D nd n b' k')"

section \<open>The buffer\<close>

text \<open>\<^verbatim>\<open>Buffer::Buffer\<close>; \<open>None\<close> is the exception of \<^verbatim>\<open>allocate()\<close>.\<close>

definition Buffer :: "byte list list \<Rightarrow> buffer option" where
  "Buffer all =
     (case newBlock \<lparr>m_blocks = [], m_iterators = [], m_blockId = 0,
                     m_begin = 0, m_end = 0, m_all = all\<rparr> [] of
        None \<Rightarrow> None
      | Some (blocks, b) \<Rightarrow> Some (b\<lparr>m_blocks := blocks, m_begin := 0, m_end := 0\<rparr>))"

text \<open>
  The positions that \<^verbatim>\<open>begin()\<close> and \<^verbatim>\<open>end()\<close> construct, and the two calls themselves,
  which register the new iterator at the head and at the tail of the registry.
\<close>

definition begin_pos :: "buffer \<Rightarrow> iterator" where
  "begin_pos b = \<lparr>m_block = block_id (hd (m_blocks b)), m_position = m_begin b\<rparr>"

definition end_pos :: "buffer \<Rightarrow> iterator" where
  "end_pos b = \<lparr>m_block = block_id (last (m_blocks b)), m_position = m_end b\<rparr>"

definition buffer_begin :: "buffer \<Rightarrow> iterator \<times> buffer" where
  "buffer_begin b = (begin_pos b, b\<lparr>m_iterators := begin_pos b # m_iterators b\<rparr>)"

definition buffer_end :: "buffer \<Rightarrow> iterator \<times> buffer" where
  "buffer_end b = (end_pos b, b\<lparr>m_iterators := m_iterators b @ [end_pos b]\<rparr>)"

definition empty_buf :: "buffer \<Rightarrow> bool" where
  "empty_buf b = iter_eq (begin_pos b) (end_pos b)"

subsection \<open>\<^verbatim>\<open>addBack\<close>\<close>

text \<open>
  The \<^verbatim>\<open>do ... while\<close> loop of \<^verbatim>\<open>addBack(wrap::Data)\<close>.  \<open>buf\<close> holds the \<^verbatim>\<open>size\<close> bytes
  not yet copied; \<open>new_end\<close> is the pair of the block and the offset that the pointer
  \<^verbatim>\<open>new_end\<close> refers to: in the first round the tail of the main list, later the newest
  block of the transient list \<open>new_blocks\<close>.  When \<^verbatim>\<open>newBlock\<close> throws, unwinding runs
  \<^verbatim>\<open>~Blocks\<close> on the transient list.
\<close>

function addBack_loop ::
  "nat \<Rightarrow> buffer \<Rightarrow> block list \<Rightarrow> nat \<times> nat \<Rightarrow> byte list \<Rightarrow> nat
     \<Rightarrow> error + (buffer \<times> block list \<times> (nat \<times> nat) \<times> byte list)" where
  "addBack_loop D b new_blocks new_end buf left_in_block =
     (let b1 = b\<lparr>m_blocks :=
                  memcpy (m_blocks b) (fst new_end) (snd new_end) (take left_in_block buf)\<rparr>;
          nb1 = memcpy new_blocks (fst new_end) (snd new_end) (take left_in_block buf)
      in case newBlock b1 nb1 of
           None \<Rightarrow> Inl (bad_alloc (Blocks_dtor nb1 b1))
         | Some (nb2, b2) \<Rightarrow>
             (if length (drop left_in_block buf) \<ge> D
              then addBack_loop D b2 nb2 (block_id (last nb2), 0) (drop left_in_block buf) D
              else Inr (b2, nb2, (block_id (last nb2), 0), drop left_in_block buf)))"
  by pat_completeness auto
termination
  by (relation "measure (\<lambda>(D, b, nb, ne, buf, l). length (m_all b))")
     (auto simp: newBlock_def allocate_def split: list.splits)

definition addBack :: "nat \<Rightarrow> bool \<Rightarrow> buffer \<Rightarrow> byte list \<Rightarrow> error + buffer" where
  "addBack D nd b buf =
     (if \<not> (nd \<or> length buf \<noteq> 0) then Inl assertion_failed
      else if m_blocks b = [] then Inl invalid_access
      else if D - m_end b > length buf
      then Inr (b\<lparr>m_blocks := memcpy (m_blocks b) (block_id (last (m_blocks b))) (m_end b) buf,
                 m_end := m_end b + length buf\<rparr>)
      else case addBack_loop D b [] (block_id (last (m_blocks b)), m_end b) buf (D - m_end b) of
             Inl e \<Rightarrow> Inl e
           | Inr (b', new_blocks, new_end, buf') \<Rightarrow>
               Inr (b'\<lparr>m_blocks :=
                         m_blocks b' @ memcpy new_blocks (fst new_end) (snd new_end) buf',
                       m_end := snd new_end + length buf'\<rparr>))"

text \<open>\<^verbatim>\<open>addBack(const T&)\<close>, with the \<^verbatim>\<open>sizeof(T)\<close> bytes of the object.\<close>

definition addBack_T :: "nat \<Rightarrow> bool \<Rightarrow> buffer \<Rightarrow> byte list \<Rightarrow> error + buffer" where
  "addBack_T D nd b t = addBack D nd b t"

text \<open>
  \<^verbatim>\<open>addBack(CStr<C...>)\<close>.  \<^verbatim>\<open>Utils/CStr.hpp\<close> is not among the sources: \<open>cdata\<close> stands for
  \<^verbatim>\<open>CStr::data\<close> with its \<^verbatim>\<open>CStr::rnd_size\<close> bytes and \<open>csize\<close> for \<^verbatim>\<open>CStr::size\<close>.
\<close>

definition addBack_CStr :: "nat \<Rightarrow> bool \<Rightarrow> buffer \<Rightarrow> byte list \<Rightarrow> nat \<Rightarrow> error + buffer" where
  "addBack_CStr D nd b cdata csize =
     (if csize \<noteq> 0
      then (if m_blocks b = [] then Inl invalid_access
            else if D - m_end b > length cdata
            then Inr (b\<lparr>m_blocks :=
                         memcpy (m_blocks b) (block_id (last (m_blocks b))) (m_end b) cdata,
                       m_end := m_end b + csize\<rparr>)
            else addBack D nd b (take csize cdata))
      else Inr b)"

text \<open>The loop of \<^verbatim>\<open>addBack(wrap::Advance)\<close>; \<^verbatim>\<open>new_end\<close> is offset \<open>0\<close> of the newest block.\<close>

function advance_loop ::
  "nat \<Rightarrow> buffer \<Rightarrow> block list \<Rightarrow> nat \<Rightarrow> nat \<Rightarrow> error + (buffer \<times> block list \<times> nat)" where
  "advance_loop D b new_blocks sz left_in_block =
     (case newBlock b new_blocks of
        None \<Rightarrow> Inl (bad_alloc (Blocks_dtor new_blocks b))
      | Some (nb2, b2) \<Rightarrow>
          (if sz - left_in_block \<ge> D
           then advance_loop D b2 nb2 (sz - left_in_block) D
           else Inr (b2, nb2, sz - left_in_block)))"
  by pat_completeness auto
termination
  by (relation "measure (\<lambda>(D, b, nb, sz, l). length (m_all b))")
     (auto simp: newBlock_def allocate_def split: list.splits)

definition addBack_Advance :: "nat \<Rightarrow> bool \<Rightarrow> buffer \<Rightarrow> nat \<Rightarrow> error + buffer" where
  "addBack_Advance D nd b sz =
     (if \<not> (nd \<or> sz \<noteq> 0) then Inl assertion_failed
      else if m_blocks b = [] then Inl invalid_access
      else if D - m_end b > sz then Inr (b\<lparr>m_end := m_end b + sz\<rparr>)
      else case advance_loop D b [] sz (D - m_end b) of
             Inl e \<Rightarrow> Inl e
           | Inr (b', new_blocks, sz') \<Rightarrow>
               Inr (b'\<lparr>m_blocks := m_blocks b' @ new_blocks, m_end := sz'\<rparr>))"

subsection \<open>\<^verbatim>\<open>dropBack\<close> and \<^verbatim>\<open>dropFront\<close>\<close>

text \<open>
  The \<^verbatim>\<open>while\<close> loop of \<^verbatim>\<open>dropBack\<close>; \<open>block\<close> is the index of \<^verbatim>\<open>block\<close> in the list.  The
  assertion inside the loop is evaluated after \<^verbatim>\<open>block\<close> has been set to the
  predecessor, as in the source.
\<close>

function dropBack_loop ::
  "nat \<Rightarrow> bool \<Rightarrow> buffer \<Rightarrow> nat \<Rightarrow> nat \<Rightarrow> nat \<Rightarrow> error + (buffer \<times> nat \<times> nat)" where
  "dropBack_loop D nd b block sz left_in_block =
     (if sz > left_in_block
      then (if \<not> (nd \<or> m_blocks b \<noteq> []) then Inl assertion_failed
            else case delBlockAndPrev b block of
                   Inl e \<Rightarrow> Inl e
                 | Inr (block', b1) \<Rightarrow>
                     (if \<not> (nd \<or> m_iterators b1 = []
                             \<or> m_block (last (m_iterators b1)) \<noteq> block_id (m_blocks b1 ! block'))
                      then Inl assertion_failed
                      else dropBack_loop D nd (b1\<lparr>m_end := D\<rparr>) block' (sz - left_in_block) D))
      else Inr (b, block, sz))"
  by pat_completeness auto
termination
  by (relation "measure (\<lambda>(D, nd, b, block, sz, l). block)")
     (auto simp: delBlockAndPrev_def split: nat.splits if_splits)

definition dropBack :: "nat \<Rightarrow> bool \<Rightarrow> buffer \<Rightarrow> nat \<Rightarrow> error + buffer" where
  "dropBack D nd b sz =
     (if \<not> (nd \<or> sz \<noteq> 0) then Inl assertion_failed
      else if \<not> (nd \<or> m_blocks b \<noteq> []) then Inl assertion_failed
      else if m_blocks b = [] then Inl invalid_access
      else case dropBack_loop D nd b (length (m_blocks b) - 1) sz (m_end b) of
             Inl e \<Rightarrow> Inl e
           | Inr (b1, block, sz') \<Rightarrow>
               (let b2 = b1\<lparr>m_end := m_end b1 - sz'\<rparr>
                in if nd then Inr b2
                   else if \<not> sz' \<le> m_end b1 then Inl assertion_failed
                   else if m_iterators b2 \<noteq> []
                           \<and> m_block (last (m_iterators b2)) = block_id (m_blocks b2 ! block)
                           \<and> \<not> m_position (last (m_iterators b2)) \<le> m_end b2
                   then Inl assertion_failed
                   else if block = 0 \<and> \<not> m_end b2 \<ge> m_begin b2 then Inl assertion_failed
                   else Inr b2))"

text \<open>The \<^verbatim>\<open>while\<close> loop of \<^verbatim>\<open>dropFront\<close>; \<^verbatim>\<open>block\<close> is always the head of the list.\<close>

function dropFront_loop ::
  "nat \<Rightarrow> bool \<Rightarrow> buffer \<Rightarrow> nat \<Rightarrow> nat \<Rightarrow> error + (buffer \<times> nat)" where
  "dropFront_loop D nd b sz left_in_block =
     (if sz > left_in_block
      then (if \<not> (nd \<or> m_iterators b = []
                    \<or> m_block (hd (m_iterators b)) \<noteq> block_id (hd (m_blocks b)))
            then Inl assertion_failed
            else case delBlockAndNext b 0 of
                   Inl e \<Rightarrow> Inl e
                 | Inr (block', b1) \<Rightarrow>
                     dropFront_loop D nd (b1\<lparr>m_begin := 0\<rparr>) (sz - left_in_block) D)
      else Inr (b, sz))"
  by pat_completeness auto
termination
  by (relation "measure (\<lambda>(D, nd, b, sz, l). length (m_blocks b))")
     (auto simp: delBlockAndNext_def delBlock_def split: if_splits)

definition dropFront :: "nat \<Rightarrow> bool \<Rightarrow> buffer \<Rightarrow> nat \<Rightarrow> error + buffer" where
  "dropFront D nd b sz =
     (if \<not> (nd \<or> sz \<noteq> 0) then Inl assertion_failed
      else if \<not> (nd \<or> m_blocks b \<noteq> []) then Inl assertion_failed
      else if m_blocks b = [] then Inl invalid_access
      else case dropFront_loop D nd b sz (D - m_begin b) of
             Inl e \<Rightarrow> Inl e
           | Inr (b1, sz') \<Rightarrow>
               (let b2 = b1\<lparr>m_begin := m_begin b1 + sz'\<rparr>
                in if nd then Inr b2
                   else if \<not> m_begin b2 \<le> D then Inl assertion_failed
                   else if m_iterators b2 \<noteq> []
                           \<and> m_block (last (m_iterators b2)) = block_id (hd (m_blocks b2))
                           \<and> \<not> m_position (last (m_iterators b2)) \<ge> m_begin b2
                   then Inl assertion_failed
                   else if length (m_blocks b2) = 1 \<and> \<not> m_begin b2 \<le> m_end b2
                   then Inl assertion_failed
                   else Inr b2))"

subsection \<open>\<^verbatim>\<open>getIOV\<close>\<close>

text \<open>
  The loop of \<^verbatim>\<open>getIOV\<close> over the chain of \<^verbatim>\<open>block\<close>; the last argument is
  \<^verbatim>\<open>max_size - vec_cnt\<close>.  The result lists the descriptors written to \<^verbatim>\<open>vecs[0..]\<close>; the
  value returned by the source, \<^verbatim>\<open>vec_cnt\<close>, is the length of that list.
\<close>

fun getIOV_loop :: "nat \<Rightarrow> block list \<Rightarrow> nat \<Rightarrow> nat \<Rightarrow> nat \<Rightarrow> nat \<Rightarrow> error + iovec list" where
  "getIOV_loop D blks last_block end_position pos 0 = Inr []"
| "getIOV_loop D [] last_block end_position pos (Suc n) = Inl invalid_access"
| "getIOV_loop D (x # rest) last_block end_position pos (Suc n) =
     (if block_id x = last_block
      then Inr [\<lparr>iov_base = (block_id x, pos), iov_len = end_position - pos\<rparr>]
      else case getIOV_loop D rest last_block end_position 0 n of
             Inl e \<Rightarrow> Inl e
           | Inr vecs \<Rightarrow> Inr (\<lparr>iov_base = (block_id x, pos), iov_len = D - pos\<rparr> # vecs))"

definition getIOV ::
  "nat \<Rightarrow> bool \<Rightarrow> buffer \<Rightarrow> iterator \<Rightarrow> iterator \<Rightarrow> nat \<Rightarrow> error + iovec list" where
  "getIOV D nd b start end_itr max_size =
     (if \<not> (nd \<or> iter_less start end_itr \<or> iter_eq start end_itr) then Inl assertion_failed
      else getIOV_loop D (blocks_from (m_blocks b) (m_block start))
             (m_block end_itr) (m_position end_itr) (m_position start) max_size)"

definition getIOV_to_end :: "nat \<Rightarrow> bool \<Rightarrow> buffer \<Rightarrow> iterator \<Rightarrow> nat \<Rightarrow> error + iovec list" where
  "getIOV_to_end D nd b itr max_size = getIOV D nd b itr (end_pos b) max_size"

subsection \<open>\<^verbatim>\<open>set\<close> and \<^verbatim>\<open>get\<close>\<close>

fun set_loop :: "nat \<Rightarrow> block list \<Rightarrow> nat \<Rightarrow> byte list \<Rightarrow> nat \<Rightarrow> error + block list" where
  "set_loop D blks pos buf left_in_block =
     (if length buf = 0 then Inr blks
      else case blks of
             [] \<Rightarrow> Inl invalid_access
           | x # rest \<Rightarrow>
               (if length buf - min (length buf) left_in_block = 0
                then Inr (write_block pos (take (min (length buf) left_in_block) buf) x # rest)
                else case set_loop D rest 0 (drop (min (length buf) left_in_block) buf) D of
                       Inl e \<Rightarrow> Inl e
                     | Inr rest' \<Rightarrow>
                         Inr (write_block pos (take (min (length buf) left_in_block) buf) x
                              # rest')))"

definition set_buf :: "nat \<Rightarrow> buffer \<Rightarrow> iterator \<Rightarrow> byte list \<Rightarrow> error + buffer" where
  "set_buf D b itr buf =
     (case set_loop D (blocks_from (m_blocks b) (m_block itr)) (m_position itr) buf
             (D - m_position itr) of
        Inl e \<Rightarrow> Inl e
      | Inr blks \<Rightarrow>
          Inr (b\<lparr>m_blocks := takeWhile (\<lambda>x. block_id x \<noteq> m_block itr) (m_blocks b) @ blks\<rparr>))"

text \<open>\<^verbatim>\<open>set(itr, T&& t)\<close>, with the \<^verbatim>\<open>sizeof(t)\<close> bytes of the object.\<close>

definition set_T :: "nat \<Rightarrow> buffer \<Rightarrow> iterator \<Rightarrow> byte list \<Rightarrow> error + buffer" where
  "set_T D b itr t =
     (if length t \<le> D - m_position itr
      then (if m_block itr \<in> block_id ` set (m_blocks b)
            then Inr (b\<lparr>m_blocks := memcpy (m_blocks b) (m_block itr) (m_position itr) t\<rparr>)
            else Inl invalid_access)
      else set_buf D b itr t)"

fun get_loop :: "nat \<Rightarrow> block list \<Rightarrow> nat \<Rightarrow> nat \<Rightarrow> nat \<Rightarrow> error + byte list" where
  "get_loop D blks pos sz left_in_block =
     (if sz = 0 then Inr []
      else case blks of
             [] \<Rightarrow> Inl invalid_access
           | x # rest \<Rightarrow>
               (if sz - min sz left_in_block = 0
                then Inr (take (min sz left_in_block) (drop pos (data x)))
                else case get_loop D rest 0 (sz - min sz left_in_block) D of
                       Inl e \<Rightarrow> Inl e
                     | Inr out \<Rightarrow> Inr (take (min sz left_in_block) (drop pos (data x)) @ out)))"

text \<open>
  \<^verbatim>\<open>get(itr, buf, size)\<close>: the bytes stored to \<^verbatim>\<open>buf\<close>, and the buffer the call leaves.
\<close>

definition get_buf :: "nat \<Rightarrow> buffer \<Rightarrow> iterator \<Rightarrow> nat \<Rightarrow> error + (byte list \<times> buffer)" where
  "get_buf D b itr sz =
     (case get_loop D (blocks_from (m_blocks b) (m_block itr)) (m_position itr) sz
             (D - m_position itr) of
        Inl e \<Rightarrow> Inl e
      | Inr out \<Rightarrow> Inr (out, b))"

text \<open>\<^verbatim>\<open>get(itr, T& t)\<close> for an object of \<open>t_size\<close> bytes.\<close>

definition get_T :: "nat \<Rightarrow> buffer \<Rightarrow> iterator \<Rightarrow> nat \<Rightarrow> error + (byte list \<times> buffer)" where
  "get_T D b itr t_size =
     (if t_size \<le> D - m_position itr
      then (case blocks_from (m_blocks b) (m_block itr) of
              [] \<Rightarrow> Inl invalid_access
            | x # _ \<Rightarrow> Inr (take t_size (drop (m_position itr) (data x)), b))
      else get_buf D b itr t_size)"

subsection \<open>\<^verbatim>\<open>flush\<close>\<close>

text \<open>
  C++ leaves open in which order the operands of \<^verbatim>\<open>m_iterators.first() - begin()\<close> are
  evaluated, so the order is a parameter.  \<^verbatim>\<open>begin()\<close> links its temporary at the head of
  the registry: when \<^verbatim>\<open>begin()\<close> is evaluated first, \<^verbatim>\<open>m_iterators.first()\<close> is that
  temporary; when \<^verbatim>\<open>m_iterators.first()\<close> is evaluated first, it is the iterator that was
  the first one before the call.  The temporaries are unlinked again at the end of the
  statement, so \<^verbatim>\<open>dropFront\<close> runs on the registry of before.
\<close>

datatype operand_order = first_then_begin | begin_then_first

definition flush :: "nat \<Rightarrow> bool \<Rightarrow> operand_order \<Rightarrow> buffer \<Rightarrow> error + buffer" where
  "flush D nd ord b =
     (if m_blocks b = [] then Inl invalid_access
      else (let distance =
                  unat (if m_iterators b = [] then iter_minus D (end_pos b) (begin_pos b)
                        else (case ord of
                                first_then_begin \<Rightarrow>
                                  (let first = hd (m_iterators b);
                                       (tmp, b1) = buffer_begin b
                                   in iter_minus D first tmp)
                              | begin_then_first \<Rightarrow>
                                  (let (tmp, b1) = buffer_begin b;
                                       first = hd (m_iterators b1)
                                   in iter_minus D first tmp)))
            in if distance > 0 then dropFront D nd b distance else Inr b))"

subsection \<open>\<^verbatim>\<open>debugSelfCheck\<close>\<close>

text \<open>
  The flags are or-ed into \<open>res\<close>; each loop is a fold over its list.  An offset cannot lie
  in front of the begin of its block here, so the flag 8 is never set.
\<close>

definition debugSelfCheck :: "nat \<Rightarrow> buffer \<Rightarrow> int" where
  "debugSelfCheck D b =
     (let (first, expectedId, res) =
            fold (\<lambda>block (first, expectedId, res).
                    (False, block_id block + 1,
                     if \<not> first \<and> block_id block \<noteq> expectedId then or res 1 else res))
                 (m_blocks b) (True, m_blockId b, 0);
          res = (if expectedId \<noteq> m_blockId b then or res 2 else res)
      in fold (\<lambda>itr res.
                 (let res = (if m_position itr \<ge> D then or res 4 else res)
                  in if m_position itr < 0 then or res 8 else res))
              (m_iterators b) res)"

subsection \<open>\<^verbatim>\<open>insert\<close>\<close>

text \<open>The macro \<^verbatim>\<open>src_block_begin\<close>, for \<^verbatim>\<open>src_block\<close> at index \<open>src_block\<close>.\<close>

definition src_block_begin :: "block list \<Rightarrow> iterator \<Rightarrow> nat \<Rightarrow> nat" where
  "src_block_begin bs itr src_block =
     (if block_id (bs ! src_block) = m_block itr then m_position itr else 0)"

text \<open>
  The \<^verbatim>\<open>for (;;)\<close> loop of \<^verbatim>\<open>insert\<close>.  \<open>src_block\<close> and \<open>dst_block\<close> are indices into the
  block list, \<open>src\<close> and \<open>dst\<close> offsets into these blocks.  The second disjunct of the
  assertion compares two pointers; it is taken to hold when they point into the same
  block and the offsets compare so.  The result is the block list and the final
  \<^verbatim>\<open>src_block\<close> and \<^verbatim>\<open>src\<close>.
\<close>

function insert_loop ::
  "nat \<Rightarrow> bool \<Rightarrow> iterator \<Rightarrow> block list \<Rightarrow> nat \<Rightarrow> nat \<Rightarrow> nat \<Rightarrow> nat \<Rightarrow> nat \<Rightarrow> nat \<Rightarrow> nat
     \<Rightarrow> error + (block list \<times> nat \<times> nat)" where
  "insert_loop D nd itr bs src_block dst_block src dst
       left_in_src_block left_in_dst_block copy_chunk_sz =
     (if \<not> dst_block < length bs \<or> \<not> src_block < length bs then Inl invalid_access
      else if \<not> (nd \<or> block_id (bs ! dst_block) > m_block itr
                  \<or> (block_id (bs ! dst_block) = m_block itr \<and> dst \<ge> m_position itr))
      then Inl assertion_failed
      else case memmove bs dst_block dst src_block src copy_chunk_sz of
             None \<Rightarrow> Inl invalid_access
           | Some bs1 \<Rightarrow>
               (if left_in_dst_block > left_in_src_block
                then (if block_id (bs1 ! src_block) = m_block itr
                      then Inr (bs1, src_block, src)
                      else case src_block of
                             0 \<Rightarrow> Inl invalid_access
                           | Suc sb \<Rightarrow>
                               insert_loop D nd itr bs1 sb dst_block
                                 (D - (left_in_dst_block - copy_chunk_sz)) 0
                                 (D - src_block_begin bs1 itr sb)
                                 (left_in_dst_block - copy_chunk_sz)
                                 (left_in_dst_block - copy_chunk_sz))
                else (case dst_block of
                        0 \<Rightarrow> Inl invalid_access
                      | Suc db \<Rightarrow>
                          insert_loop D nd itr bs1 src_block db
                            0 (D - (left_in_src_block - copy_chunk_sz))
                            (left_in_src_block - copy_chunk_sz) D
                            (left_in_src_block - copy_chunk_sz))))"
  by pat_completeness auto
termination
  by (relation "measure (\<lambda>(D, nd, itr, bs, sb, db, r). sb + db)") auto

text \<open>
  The closing loop of \<^verbatim>\<open>insert\<close> over the registry, from its last iterator towards the
  first: \<open>rits\<close> is the registry in reverse.
\<close>

fun insert_iterators ::
  "nat \<Rightarrow> bool \<Rightarrow> block list \<Rightarrow> iterator \<Rightarrow> nat \<Rightarrow> iterator list \<Rightarrow> error + iterator list" where
  "insert_iterators D nd bs itr sz [] = Inl invalid_access"
| "insert_iterators D nd bs itr sz (tmp # rits) =
     (if \<not> iter_eq tmp itr
      then (case moveForward D nd bs tmp sz of
              Inl e \<Rightarrow> Inl e
            | Inr tmp' \<Rightarrow>
                (case insert_iterators D nd bs itr sz rits of
                   Inl e \<Rightarrow> Inl e
                 | Inr rits' \<Rightarrow> Inr (tmp' # rits')))
      else Inr (tmp # rits))"

text \<open>
  The first part of \<^verbatim>\<open>insert\<close> after the buffer has been extended (``Firstly move data
  in blocks''), up to the two assertions behind the loop: \<open>bs\<close> and \<open>new_end\<close> are the
  blocks and \<^verbatim>\<open>m_end\<close> of the extended buffer, \<open>src_block\<close> and \<open>src_block_end\<close> the
  last block and \<^verbatim>\<open>m_end\<close> of the buffer before.  An iterator behind \<open>src_block_end\<close> in
  its block makes the pointer difference \<^verbatim>\<open>src_block_end - src_block_begin\<close> negative;
  this is \<open>invalid_access\<close>.
\<close>

definition insert_data ::
  "nat \<Rightarrow> bool \<Rightarrow> block list \<Rightarrow> nat \<Rightarrow> iterator \<Rightarrow> nat \<Rightarrow> nat \<Rightarrow> error + block list" where
  "insert_data D nd bs new_end itr src_block src_block_end =
     (let dst_block = length bs - 1;
          left_in_dst_block = new_end;
          left_in_src_block = src_block_end - src_block_begin bs itr src_block;
          src = (if left_in_dst_block > left_in_src_block
                 then src_block_begin bs itr src_block
                 else src_block_end - left_in_dst_block);
          dst = (if left_in_dst_block > left_in_src_block
                 then new_end - left_in_src_block
                 else 0)
      in if src_block_begin bs itr src_block > src_block_end then Inl invalid_access
         else if \<not> (nd \<or> dst \<le> new_end) then Inl assertion_failed
         else case insert_loop D nd itr bs src_block dst_block src dst
                     left_in_src_block left_in_dst_block
                     (min left_in_src_block left_in_dst_block) of
                Inl e \<Rightarrow> Inl e
              | Inr (bs', src_block', src') \<Rightarrow>
                  (if \<not> (nd \<or> m_position itr \<ge> src') then Inl assertion_failed
                   else Inr bs'))"

definition insert_buf :: "nat \<Rightarrow> bool \<Rightarrow> buffer \<Rightarrow> iterator \<Rightarrow> nat \<Rightarrow> error + buffer" where
  "insert_buf D nd b itr sz =
     (if m_blocks b = [] then Inl invalid_access
      else case addBack_Advance D nd b sz of
             Inl e \<Rightarrow> Inl e
           | Inr b1 \<Rightarrow>
               (case insert_data D nd (m_blocks b1) (m_end b1) itr
                       (length (m_blocks b) - 1) (m_end b) of
                  Inl e \<Rightarrow> Inl e
                | Inr bs' \<Rightarrow>
                    (case insert_iterators D nd bs' itr sz (rev (m_iterators b1)) of
                       Inl e \<Rightarrow> Inl e
                     | Inr rits \<Rightarrow> Inr (b1\<lparr>m_blocks := bs', m_iterators := rev rits\<rparr>))))"

subsection \<open>\<^verbatim>\<open>release\<close> and \<^verbatim>\<open>resize\<close>\<close>

text \<open>The first loop of \<^verbatim>\<open>release\<close>, which locates the block to start copying with.\<close>

function release_locate :: "nat \<Rightarrow> block list \<Rightarrow> nat \<Rightarrow> nat \<Rightarrow> nat \<Rightarrow> error + (nat \<times> nat)" where
  "release_locate D bs src_block src step =
     (if step \<ge> D - src
      then (if Suc src_block < length bs
            then release_locate D bs (Suc src_block) 0 (step - (D - src))
            else Inl invalid_access)
      else Inr (src_block, src + step))"
  by pat_completeness auto
termination
  by (relation "measure (\<lambda>(D, bs, sb, src, step). length bs - sb)") auto

function release_loop ::
  "nat \<Rightarrow> block list \<Rightarrow> nat \<Rightarrow> nat \<Rightarrow> nat \<Rightarrow> nat \<Rightarrow> nat \<Rightarrow> nat \<Rightarrow> nat \<Rightarrow> error + block list" where
  "release_loop D bs src_block dst_block src dst
       left_in_src_block left_in_dst_block copy_chunk_sz =
     (case memmove bs dst_block dst src_block src copy_chunk_sz of
        None \<Rightarrow> Inl invalid_access
      | Some bs1 \<Rightarrow>
          (if left_in_dst_block > left_in_src_block
           then (if Suc src_block = length bs1 then Inr bs1
                 else if \<not> Suc src_block < length bs1 then Inl invalid_access
                 else release_loop D bs1 (Suc src_block) dst_block
                        0 (dst + copy_chunk_sz)
                        D (left_in_dst_block - copy_chunk_sz)
                        (left_in_dst_block - copy_chunk_sz))
           else (if \<not> Suc dst_block < length bs1 then Inl invalid_access
                 else release_loop D bs1 src_block (Suc dst_block)
                        (src + copy_chunk_sz) 0
                        (left_in_src_block - copy_chunk_sz) D
                        (left_in_src_block - copy_chunk_sz))))"
  by pat_completeness auto
termination
  by (relation "measure (\<lambda>(D, bs, sb, db, r). (length bs - sb) + (length bs - db))")
     (auto simp: memmove_def split: if_splits)

fun release_iterators ::
  "nat \<Rightarrow> bool \<Rightarrow> block list \<Rightarrow> iterator \<Rightarrow> nat \<Rightarrow> iterator list \<Rightarrow> error + iterator list" where
  "release_iterators D nd bs itr sz [] = Inl invalid_access"
| "release_iterators D nd bs itr sz (tmp # rits) =
     (if \<not> iter_eq tmp itr
      then (case moveBackward D nd bs tmp sz of
              Inl e \<Rightarrow> Inl e
            | Inr tmp' \<Rightarrow>
                (case release_iterators D nd bs itr sz rits of
                   Inl e \<Rightarrow> Inl e
                 | Inr rits' \<Rightarrow> Inr (tmp' # rits')))
      else Inr (tmp # rits))"

text \<open>
  The first part of \<^verbatim>\<open>release\<close> (``Firstly move data in blocks''), for the iterator's
  block at index \<open>itr_block\<close>.
\<close>

definition release_data ::
  "nat \<Rightarrow> bool \<Rightarrow> block list \<Rightarrow> iterator \<Rightarrow> nat \<Rightarrow> nat \<Rightarrow> error + block list" where
  "release_data D nd bs itr itr_block sz =
     (if \<not> (nd \<or> D \<ge> m_position itr) then Inl assertion_failed
      else case release_locate D bs itr_block (m_position itr) sz of
             Inl e \<Rightarrow> Inl e
           | Inr (src_block, src) \<Rightarrow>
               release_loop D bs src_block itr_block src (m_position itr)
                 (D - src) (D - m_position itr) (min (D - src) (D - m_position itr)))"

definition release :: "nat \<Rightarrow> bool \<Rightarrow> buffer \<Rightarrow> iterator \<Rightarrow> nat \<Rightarrow> error + buffer" where
  "release D nd b itr sz =
     (case block_index (m_blocks b) (m_block itr) of
        None \<Rightarrow> Inl invalid_access
      | Some itr_block \<Rightarrow>
          (case release_data D nd (m_blocks b) itr itr_block sz of
             Inl e \<Rightarrow> Inl e
           | Inr bs' \<Rightarrow>
               (case release_iterators D nd bs' itr sz (rev (m_iterators b)) of
                  Inl e \<Rightarrow> Inl e
                | Inr rits \<Rightarrow>
                    dropBack D nd (b\<lparr>m_blocks := bs', m_iterators := rev rits\<rparr>) sz)))"

definition resize :: "nat \<Rightarrow> bool \<Rightarrow> buffer \<Rightarrow> iterator \<Rightarrow> nat \<Rightarrow> nat \<Rightarrow> error + buffer" where
  "resize D nd b itr sz new_size =
     (if new_size > sz then insert_buf D nd b itr (new_size - sz)
      else release D nd b itr (sz - new_size))"

text \<open>\<^verbatim>\<open>insert(itr, size)\<close> immediately followed by \<^verbatim>\<open>release(itr, size)\<close>.\<close>

definition insert_release :: "nat \<Rightarrow> bool \<Rightarrow> buffer \<Rightarrow> iterator \<Rightarrow> nat \<Rightarrow> error + buffer" where
  "insert_release D nd b itr sz =
     (case insert_buf D nd b itr sz of
        Inl e \<Rightarrow> Inl e
      | Inr b1 \<Rightarrow> release D nd b1 itr sz)"

section \<open>Observations and invariants\<close>

text \<open>
  The logical byte sequence of the buffer: the bytes from \<^verbatim>\<open>m_begin\<close> in the first block
  up to \<^verbatim>\<open>m_end\<close> in the last block.
\<close>

definition content :: "buffer \<Rightarrow> byte list" where
  "content b =
     drop (m_begin b)
       (concat (map data (butlast (m_blocks b))) @ take (m_end b) (data (last (m_blocks b))))"

text \<open>All bytes of the blocks up to \<^verbatim>\<open>m_end\<close>, those in front of \<^verbatim>\<open>m_begin\<close> included.\<close>

definition filled :: "buffer \<Rightarrow> byte list" where
  "filled b =
     concat (map data (butlast (m_blocks b))) @ take (m_end b) (data (last (m_blocks b)))"

text \<open>The number of bytes between \<^verbatim>\<open>m_begin\<close> and \<^verbatim>\<open>m_end\<close>.\<close>

definition buffer_size :: "nat \<Rightarrow> buffer \<Rightarrow> nat" where
  "buffer_size D b = (length (m_blocks b) - 1) * D + m_end b - m_begin b"

text \<open>
  The number of bytes between \<^verbatim>\<open>begin()\<close> and the first registered iterator, or
  \<^verbatim>\<open>end()\<close> when the registry is empty.
\<close>

definition first_distance :: "nat \<Rightarrow> buffer \<Rightarrow> nat" where
  "first_distance D b =
     (if m_iterators b = [] then buffer_size D b
      else (m_block (hd (m_iterators b)) - m_block (begin_pos b)) * D
             + m_position (hd (m_iterators b)) - m_begin b)"

text \<open>The bytes that an \<^verbatim>\<open>iovec\<close> describes.\<close>

definition block_data :: "block list \<Rightarrow> nat \<Rightarrow> byte list" where
  "block_data bs p = (case blocks_from bs p of [] \<Rightarrow> [] | x # _ \<Rightarrow> data x)"

definition read_iov :: "block list \<Rightarrow> iovec \<Rightarrow> byte list" where
  "read_iov bs v = take (iov_len v) (drop (snd (iov_base v)) (block_data bs (fst (iov_base v))))"

text \<open>Block ids increase by one from \<open>h\<close> on, as \<^verbatim>\<open>debugSelfCheck\<close> tests them.\<close>

fun ids_from :: "nat \<Rightarrow> block list \<Rightarrow> bool" where
  "ids_from h [] = True"
| "ids_from h (x # xs) = (block_id x = h \<and> ids_from (Suc h) xs)"

text \<open>
  The invariant of a buffer between two calls: the list is not empty, every data area
  and every free chunk has \<open>D\<close> bytes, the ids are contiguous and end below the counter
  \<^verbatim>\<open>m_blockId\<close>, \<^verbatim>\<open>m_begin\<close> lies in the data area of the first block or at its end,
  \<^verbatim>\<open>m_end\<close> lies in the data area of the last block, and \<^verbatim>\<open>m_begin\<close> is not behind
  \<^verbatim>\<open>m_end\<close>.
\<close>

definition buffer_inv :: "nat \<Rightarrow> buffer \<Rightarrow> bool" where
  "buffer_inv D b =
     (0 < D \<and> m_blocks b \<noteq> []
      \<and> list_all (\<lambda>x. length (data x) = D) (m_blocks b)
      \<and> length (m_blocks b) \<le> m_blockId b
      \<and> ids_from (m_blockId b - length (m_blocks b)) (m_blocks b)
      \<and> m_begin b \<le> D \<and> m_end b < D
      \<and> (length (m_blocks b) = 1 \<longrightarrow> m_begin b \<le> m_end b)
      \<and> list_all (\<lambda>c. length c = D) (m_all b))"

text \<open>
  A position of the buffer: the block is in the list and the offset is inside its data
  area or at its end.  A live iterator points inside the data area.
\<close>

definition iter_valid :: "nat \<Rightarrow> buffer \<Rightarrow> iterator \<Rightarrow> bool" where
  "iter_valid D b itr =
     (m_block itr \<in> set (map block_id (m_blocks b)) \<and> m_position itr \<le> D)"

definition iter_live :: "nat \<Rightarrow> buffer \<Rightarrow> iterator \<Rightarrow> bool" where
  "iter_live D b itr =
     (m_block itr \<in> set (map block_id (m_blocks b)) \<and> m_position itr < D)"

text \<open>
  What a call leaves as it was when it changes nothing but bytes: the number of bytes in
  the buffer, the registry with the position of every iterator, the blocks and their
  ids, the id counter, the pool of the allocator, and the two cursors.
\<close>

definition same_but_bytes :: "nat \<Rightarrow> buffer \<Rightarrow> buffer \<Rightarrow> bool" where
  "same_but_bytes D b b' =
     (buffer_size D b' = buffer_size D b \<and> length (content b') = length (content b)
      \<and> m_iterators b' = m_iterators b
      \<and> map block_id (m_blocks b') = map block_id (m_blocks b)
      \<and> m_blockId b' = m_blockId b \<and> m_all b' = m_all b
      \<and> m_begin b' = m_begin b \<and> m_end b' = m_end b)"

text \<open>
  The buffers that a program can hold: the result of the constructor, and the buffer
  that any call of a public operation leaves, whether it returns or throws the exception
  of the allocator.  Constructing, copying, assigning, advancing and destroying iterators
  changes the registry only; rule \<open>r_iterators\<close> stands for these.  The arguments of the
  calls are arbitrary.  For \<^verbatim>\<open>addBack(CStr<C...>)\<close> the padded data has at least
  \<^verbatim>\<open>CStr::size\<close> bytes.
\<close>

inductive reachable :: "nat \<Rightarrow> bool \<Rightarrow> buffer \<Rightarrow> bool" for D :: nat and nd :: bool where
  r_Buffer: "Buffer all = Some b \<Longrightarrow> reachable D nd b"
| r_begin: "reachable D nd b \<Longrightarrow> reachable D nd (snd (buffer_begin b))"
| r_end: "reachable D nd b \<Longrightarrow> reachable D nd (snd (buffer_end b))"
| r_iterator_add:
    "reachable D nd b \<Longrightarrow> iterator_add D nd b k step = Inr (b', k') \<Longrightarrow> reachable D nd b'"
| r_iterators: "reachable D nd b \<Longrightarrow> reachable D nd (b\<lparr>m_iterators := its\<rparr>)"
| r_addBack: "reachable D nd b \<Longrightarrow> addBack D nd b buf = Inr b' \<Longrightarrow> reachable D nd b'"
| r_addBack_throws:
    "reachable D nd b \<Longrightarrow> addBack D nd b buf = Inl (bad_alloc b') \<Longrightarrow> reachable D nd b'"
| r_addBack_T: "reachable D nd b \<Longrightarrow> addBack_T D nd b t = Inr b' \<Longrightarrow> reachable D nd b'"
| r_addBack_T_throws:
    "reachable D nd b \<Longrightarrow> addBack_T D nd b t = Inl (bad_alloc b') \<Longrightarrow> reachable D nd b'"
| r_addBack_CStr:
    "reachable D nd b \<Longrightarrow> csize \<le> length cdata
       \<Longrightarrow> addBack_CStr D nd b cdata csize = Inr b' \<Longrightarrow> reachable D nd b'"
| r_addBack_CStr_throws:
    "reachable D nd b \<Longrightarrow> csize \<le> length cdata
       \<Longrightarrow> addBack_CStr D nd b cdata csize = Inl (bad_alloc b') \<Longrightarrow> reachable D nd b'"
| r_addBack_Advance:
    "reachable D nd b \<Longrightarrow> addBack_Advance D nd b sz = Inr b' \<Longrightarrow> reachable D nd b'"
| r_addBack_Advance_throws:
    "reachable D nd b \<Longrightarrow> addBack_Advance D nd b sz = Inl (bad_alloc b')
       \<Longrightarrow> reachable D nd b'"
| r_dropBack: "reachable D nd b \<Longrightarrow> dropBack D nd b sz = Inr b' \<Longrightarrow> reachable D nd b'"
| r_dropFront: "reachable D nd b \<Longrightarrow> dropFront D nd b sz = Inr b' \<Longrightarrow> reachable D nd b'"
| r_insert: "reachable D nd b \<Longrightarrow> insert_buf D nd b itr sz = Inr b' \<Longrightarrow> reachable D nd b'"
| r_insert_throws:
    "reachable D nd b \<Longrightarrow> insert_buf D nd b itr sz = Inl (bad_alloc b') \<Longrightarrow> reachable D nd b'"
| r_release: "reachable D nd b \<Longrightarrow> release D nd b itr sz = Inr b' \<Longrightarrow> reachable D nd b'"
| r_resize:
    "reachable D nd b \<Longrightarrow> resize D nd b itr sz new_size = Inr b' \<Longrightarrow> reachable D nd b'"
| r_resize_throws:
    "reachable D nd b \<Longrightarrow> resize D nd b itr sz new_size = Inl (bad_alloc b')
       \<Longrightarrow> reachable D nd b'"
| r_set: "reachable D nd b \<Longrightarrow> set_buf D b itr buf = Inr b' \<Longrightarrow> reachable D nd b'"
| r_set_T: "reachable D nd b \<Longrightarrow> set_T D b itr t = Inr b' \<Longrightarrow> reachable D nd b'"
| r_get: "reachable D nd b \<Longrightarrow> get_buf D b itr sz = Inr (out, b') \<Longrightarrow> reachable D nd b'"
| r_get_T: "reachable D nd b \<Longrightarrow> get_T D b itr t_size = Inr (out, b') \<Longrightarrow> reachable D nd b'"
| r_flush: "reachable D nd b \<Longrightarrow> flush D nd ord b = Inr b' \<Longrightarrow> reachable D nd b'"

section \<open>Example states\<close>

text \<open>
  Buffers with \<open>D = 4\<close> and \<open>D = 8\<close>, used to run the operations on concrete inputs.
  \<open>ex3\<close> is the buffer after \<^verbatim>\<open>addBack\<close> of nine bytes to a fresh buffer.
\<close>

definition ex3 :: buffer where
  "ex3 = \<lparr>m_blocks = [\<lparr>block_id = 0, data = ''abcd''\<rparr>, \<lparr>block_id = 1, data = ''efgh''\<rparr>,
                       \<lparr>block_id = 2, data = ''i---''\<rparr>],
           m_iterators = [], m_blockId = 3, m_begin = 0, m_end = 1, m_all = []\<rparr>"

text \<open>\<open>ex0\<close> is the fresh buffer built from a pool of three chunks.\<close>

definition ex0 :: buffer where
  "ex0 = \<lparr>m_blocks = [\<lparr>block_id = 0, data = ''....''\<rparr>], m_iterators = [], m_blockId = 1,
           m_begin = 0, m_end = 0, m_all = [''____'', ''----'']\<rparr>"

text \<open>
  \<open>ex_it\<close> is \<open>ex0\<close> after \<^verbatim>\<open>addBack\<close> of six bytes, with one registered iterator that
  \<^verbatim>\<open>begin()\<close> made and \<^verbatim>\<open>+= 4\<close> moved to the first byte of the second block.
\<close>

definition ex_it :: buffer where
  "ex_it = \<lparr>m_blocks = [\<lparr>block_id = 0, data = ''abcd''\<rparr>, \<lparr>block_id = 1, data = ''ef__''\<rparr>],
            m_iterators = [\<lparr>m_block = 1, m_position = 0\<rparr>], m_blockId = 2,
            m_begin = 0, m_end = 2, m_all = [''----'']\<rparr>"

text \<open>
  \<open>ex_edge\<close> is \<open>ex_it\<close> after \<^verbatim>\<open>dropFront(4)\<close> and a call of \<^verbatim>\<open>begin()\<close>, which registers the
  position it returns at the head of the registry.
\<close>

definition ex_edge :: buffer where
  "ex_edge = \<lparr>m_blocks = [\<lparr>block_id = 0, data = ''abcd''\<rparr>, \<lparr>block_id = 1, data = ''ef__''\<rparr>],
              m_iterators = [\<lparr>m_block = 0, m_position = 4\<rparr>, \<lparr>m_block = 1, m_position = 0\<rparr>],
              m_blockId = 2, m_begin = 4, m_end = 2, m_all = [''----'']\<rparr>"

text \<open>
  \<open>ex8\<close> has \<open>D = 8\<close>: six bytes in one block, one registered iterator at the third byte,
  and one free chunk in the pool.
\<close>

definition ex8 :: buffer where
  "ex8 = \<lparr>m_blocks = [\<lparr>block_id = 0, data = ''ABCDEF..''\<rparr>],
          m_iterators = [\<lparr>m_block = 0, m_position = 2\<rparr>], m_blockId = 1,
          m_begin = 0, m_end = 6, m_all = [''________'']\<rparr>"

section \<open>Properties\<close>

subsection \<open>Block lists with contiguous ids\<close>

lemma ids_from_nth: "ids_from h bs \<Longrightarrow> i < length bs \<Longrightarrow> block_id (bs ! i) = h + i"
  by (induction bs arbitrary: h i) (auto simp: nth_Cons split: nat.splits)

lemma ids_from_set: "ids_from h bs \<Longrightarrow> block_id ` set bs = {h ..< h + length bs}"
proof (induction bs arbitrary: h)
  case Nil then show ?case by simp
next
  case (Cons x xs)
  from Cons.prems have "ids_from (Suc h) xs" by simp
  from Cons.IH[OF this] have "block_id ` set xs = {Suc h ..< Suc h + length xs}" .
  with Cons.prems show ?case by auto
qed

lemma ids_from_append:
  "ids_from h (xs @ ys) = (ids_from h xs \<and> ids_from (h + length xs) ys)"
  by (induction xs arbitrary: h) auto

lemma blocks_from_drop:
  "ids_from h bs \<Longrightarrow> h \<le> p \<Longrightarrow> p < h + length bs \<Longrightarrow> blocks_from bs p = drop (p - h) bs"
proof (induction bs arbitrary: h)
  case Nil then show ?case by simp
next
  case (Cons x xs)
  from Cons.prems(1) have hx: "block_id x = h" and tl: "ids_from (Suc h) xs"
    by simp_all
  show ?case
  proof (cases "p = h")
    case True then show ?thesis using hx by (simp add: blocks_from_def)
  next
    case False
    with Cons.prems have "Suc h \<le> p" "p < Suc h + length xs" by simp_all
    from Cons.IH[OF tl this] have "blocks_from xs p = drop (p - Suc h) xs" .
    moreover have "p - h = Suc (p - Suc h)" using \<open>Suc h \<le> p\<close> by simp
    ultimately show ?thesis using False hx by (simp add: blocks_from_def)
  qed
qed

lemma ids_from_drop: "ids_from h bs \<Longrightarrow> ids_from (h + i) (drop i bs)"
proof (induction bs arbitrary: h i)
  case Nil then show ?case by simp
next
  case (Cons x xs)
  show ?case
  proof (cases i)
    case 0 then show ?thesis using Cons.prems by simp
  next
    case (Suc j)
    from Cons.prems have "ids_from (Suc h) xs" by simp
    from Cons.IH[OF this, of j] show ?thesis using Suc by simp
  qed
qed

lemma block_data_nth:
  "ids_from h bs \<Longrightarrow> i < length bs \<Longrightarrow> block_data bs (h + i) = data (bs ! i)"
  by (simp add: block_data_def blocks_from_drop Cons_nth_drop_Suc [symmetric])

subsection \<open>\<^verbatim>\<open>getIOV\<close>\<close>

lemma getIOV_loop_nth:
  "ids_from s blks \<Longrightarrow> k < length blks \<Longrightarrow>
   \<exists>vecs. getIOV_loop D blks (s + k) e pos n = Inr vecs \<and> length vecs = min n (Suc k)
     \<and> (\<forall>j<length vecs. vecs ! j =
           \<lparr>iov_base = (s + j, if j = 0 then pos else 0),
            iov_len = (if j = k then e else D) - (if j = 0 then pos else 0)\<rparr>)"
proof (induction blks arbitrary: s k pos n)
  case Nil then show ?case by simp
next
  case (Cons x rest)
  from Cons.prems(1) have hx: "block_id x = s"
    and tl: "ids_from (Suc s) rest"
    by simp_all
  show ?case
  proof (cases n)
    case 0 then show ?thesis by simp
  next
    case (Suc m)
    show ?thesis
    proof (cases k)
      case 0 then show ?thesis using Suc hx by simp
    next
      case (Suc k')
      with Cons.prems have "k' < length rest" by simp
      from Cons.IH[OF tl this, of 0 m] obtain vecs where
        v: "getIOV_loop D rest (Suc s + k') e 0 m = Inr vecs" "length vecs = min m (Suc k')"
           "\<forall>j<length vecs. vecs ! j = \<lparr>iov_base = (Suc s + j, if j = 0 then 0 else 0),
               iov_len = (if j = k' then e else D) - (if j = 0 then 0 else 0)\<rparr>"
        by blast
      have "getIOV_loop D (x # rest) (s + k) e pos n =
              Inr (\<lparr>iov_base = (s, pos), iov_len = D - pos\<rparr> # vecs)"
        using \<open>n = Suc m\<close> Suc hx v(1) by simp
      moreover have "length (\<lparr>iov_base = (s, pos), iov_len = D - pos\<rparr> # vecs) = min n (Suc k)"
        using v(2) \<open>n = Suc m\<close> Suc by simp
      moreover have "\<forall>j<length (\<lparr>iov_base = (s, pos), iov_len = D - pos\<rparr> # vecs).
           (\<lparr>iov_base = (s, pos), iov_len = D - pos\<rparr> # vecs) ! j =
           \<lparr>iov_base = (s + j, if j = 0 then pos else 0),
            iov_len = (if j = k then e else D) - (if j = 0 then pos else 0)\<rparr>"
      proof (intro allI impI)
        fix j assume "j < length (\<lparr>iov_base = (s, pos), iov_len = D - pos\<rparr> # vecs)"
        then show "(\<lparr>iov_base = (s, pos), iov_len = D - pos\<rparr> # vecs) ! j =
           \<lparr>iov_base = (s + j, if j = 0 then pos else 0),
            iov_len = (if j = k then e else D) - (if j = 0 then pos else 0)\<rparr>"
          using v(3) Suc by (cases j) auto
      qed
      ultimately show ?thesis by blast
    qed
  qed
qed

lemma getIOV_loop_concat:
  "ids_from s blks \<Longrightarrow> k < length blks \<Longrightarrow> k < n
   \<Longrightarrow> list_all (\<lambda>x. length (data x) = D) blks \<Longrightarrow> pos \<le> D
   \<Longrightarrow> (k = 0 \<longrightarrow> pos \<le> e)
   \<Longrightarrow> (\<And>x. x \<in> set blks \<Longrightarrow> block_data bs (block_id x) = data x)
   \<Longrightarrow> getIOV_loop D blks (s + k) e pos n = Inr vecs
   \<Longrightarrow> concat (map (read_iov bs) vecs) =
         drop pos (concat (map data (take k blks)) @ take e (data (blks ! k)))"
proof (induction blks arbitrary: s k pos n vecs)
  case Nil then show ?case by simp
next
  case (Cons x rest)
  from Cons.prems(1) have hx: "block_id x = s" and tl: "ids_from (Suc s) rest"
    by simp_all
  from Cons.prems(3) obtain m where n: "n = Suc m" by (cases n) auto
  have dx: "block_data bs s = data x" using Cons.prems(7)[of x] hx by simp
  have lx: "length (data x) = D" using Cons.prems(4) by simp
  show ?case
  proof (cases k)
    case 0
    with Cons.prems(8) n hx have "vecs = [\<lparr>iov_base = (s, pos), iov_len = e - pos\<rparr>]"
      by simp
    then show ?thesis using 0 dx by (simp add: read_iov_def drop_take)
  next
    case (Suc k')
    with Cons.prems(8) n hx obtain vs where
      vs: "getIOV_loop D rest (Suc s + k') e 0 m = Inr vs"
          "vecs = \<lparr>iov_base = (s, pos), iov_len = D - pos\<rparr> # vs"
      by (auto split: sum.splits)
    have "concat (map (read_iov bs) vs) =
            drop 0 (concat (map data (take k' rest)) @ take e (data (rest ! k')))"
      using Cons.prems Suc n
      by (intro Cons.IH[OF tl _ _ _ _ _ _ vs(1)]) auto
    moreover have "read_iov bs \<lparr>iov_base = (s, pos), iov_len = D - pos\<rparr> = drop pos (data x)"
      using dx lx by (simp add: read_iov_def)
    ultimately show ?thesis
      using vs(2) Suc lx Cons.prems(5) by simp
  qed
qed

lemma buffer_inv_ids:
  "buffer_inv D b \<Longrightarrow> ids_from (m_blockId b - length (m_blocks b)) (m_blocks b)"
  by (simp add: buffer_inv_def)

lemma iter_valid_index:
  assumes "buffer_inv D b" "m_block itr \<in> set (map block_id (m_blocks b))"
  shows "m_blockId b - length (m_blocks b) \<le> m_block itr"
    and "m_block itr < m_blockId b"
proof -
  from assms(1) have i: "ids_from (m_blockId b - length (m_blocks b)) (m_blocks b)"
    and l: "length (m_blocks b) \<le> m_blockId b"
    by (simp_all add: buffer_inv_def)
  from ids_from_set[OF i] assms(2) l
  show "m_blockId b - length (m_blocks b) \<le> m_block itr" "m_block itr < m_blockId b"
    by auto
qed

lemma begin_pos_block:
  "buffer_inv D b \<Longrightarrow> m_block (begin_pos b) = m_blockId b - length (m_blocks b)"
  by (cases "m_blocks b") (auto simp: buffer_inv_def begin_pos_def)

lemma end_pos_block:
  assumes "buffer_inv D b"
  shows "m_block (end_pos b) = m_blockId b - 1"
proof -
  from assms have ne: "m_blocks b \<noteq> []" and l: "length (m_blocks b) \<le> m_blockId b"
    by (simp_all add: buffer_inv_def)
  have "block_id (m_blocks b ! (length (m_blocks b) - 1)) =
          m_blockId b - length (m_blocks b) + (length (m_blocks b) - 1)"
    using ne by (intro ids_from_nth[OF buffer_inv_ids[OF assms]]) simp
  moreover have "0 < length (m_blocks b)" using ne by simp
  ultimately show ?thesis using ne l by (simp add: end_pos_def last_conv_nth)
qed

lemma getIOV_props:
  assumes inv: "buffer_inv D b"
    and vs: "iter_valid D b start" and ve: "iter_valid D b end_itr"
    and le: "iter_less start end_itr \<or> iter_eq start end_itr"
  shows "\<exists>vecs. getIOV D nd b start end_itr max_size = Inr vecs
     \<and> length vecs = min max_size (Suc (m_block end_itr - m_block start))
     \<and> (\<forall>j<length vecs. iov_base (vecs ! j) =
            (m_block start + j, if j = 0 then m_position start else 0))
     \<and> (\<forall>j<length vecs. snd (iov_base (vecs ! j)) + iov_len (vecs ! j) =
            (if j = m_block end_itr - m_block start then m_position end_itr else D))
     \<and> (start = begin_pos b \<and> end_itr = end_pos b \<and> length (m_blocks b) \<le> max_size
          \<longrightarrow> concat (map (read_iov (m_blocks b)) vecs) = content b)"
proof -
  define h where "h = m_blockId b - length (m_blocks b)"
  define bs where "bs = m_blocks b"
  define s where "s = m_block start"
  define k where "k = m_block end_itr - m_block start"
  have ids: "ids_from h bs" using inv by (simp add: buffer_inv_def h_def bs_def)
  have len: "length bs \<le> m_blockId b" using inv by (simp add: buffer_inv_def bs_def)
  have s1: "h \<le> s" "s < h + length bs"
    using iter_valid_index[OF inv, of start] vs len
    by (simp_all add: iter_valid_def h_def s_def bs_def)
  have e1: "m_block end_itr < h + length bs"
    using iter_valid_index[OF inv, of end_itr] ve len
    by (simp_all add: iter_valid_def h_def bs_def)
  have se: "s \<le> m_block end_itr" using le by (auto simp: iter_less_def iter_eq_def s_def)
  have frm: "blocks_from bs s = drop (s - h) bs" using ids s1 by (rule blocks_from_drop)
  have ids': "ids_from s (drop (s - h) bs)"
    using ids_from_drop[OF ids, of "s - h"] s1 by simp
  have kl: "k < length (drop (s - h) bs)" using s1 e1 se by (simp add: k_def s_def)
  have ek: "m_block end_itr = s + k" using se by (simp add: k_def s_def)
  from getIOV_loop_nth[OF ids' kl, of D "m_position end_itr" "m_position start" max_size]
  obtain vecs where
    v: "getIOV_loop D (drop (s - h) bs) (s + k) (m_position end_itr) (m_position start) max_size
          = Inr vecs"
       "length vecs = min max_size (Suc k)"
       "\<forall>j<length vecs. vecs ! j =
           \<lparr>iov_base = (s + j, if j = 0 then m_position start else 0),
            iov_len = (if j = k then m_position end_itr else D)
                        - (if j = 0 then m_position start else 0)\<rparr>"
    by blast
  have "getIOV D nd b start end_itr max_size =
          getIOV_loop D (blocks_from bs s) (m_block end_itr) (m_position end_itr)
            (m_position start) max_size"
    using le by (simp add: getIOV_def bs_def s_def)
  also have "\<dots> = Inr vecs" by (simp only: frm ek v(1))
  finally have g: "getIOV D nd b start end_itr max_size = Inr vecs" .
  have p0: "k = 0 \<longrightarrow> m_position start \<le> m_position end_itr"
    using le unfolding iter_less_def iter_eq_def k_def by linarith
  have pD: "m_position start \<le> D" "m_position end_itr \<le> D"
    using vs ve by (simp_all add: iter_valid_def)
  have base: "\<forall>j<length vecs. iov_base (vecs ! j) =
            (m_block start + j, if j = 0 then m_position start else 0)"
    using v(3) by (simp add: s_def)
  have fin: "\<forall>j<length vecs. snd (iov_base (vecs ! j)) + iov_len (vecs ! j) =
            (if j = m_block end_itr - m_block start then m_position end_itr else D)"
  proof (intro allI impI)
    fix j assume "j < length vecs"
    with v(3) have "vecs ! j =
           \<lparr>iov_base = (s + j, if j = 0 then m_position start else 0),
            iov_len = (if j = k then m_position end_itr else D)
                        - (if j = 0 then m_position start else 0)\<rparr>" by blast
    then show "snd (iov_base (vecs ! j)) + iov_len (vecs ! j) =
            (if j = m_block end_itr - m_block start then m_position end_itr else D)"
      using p0 pD by (auto simp: k_def)
  qed
  have whole: "concat (map (read_iov (m_blocks b)) vecs) = content b"
    if w: "start = begin_pos b" "end_itr = end_pos b" "length (m_blocks b) \<le> max_size"
  proof -
    have ne: "bs \<noteq> []" using inv by (simp add: buffer_inv_def bs_def)
    then have l0: "0 < length bs" by simp
    have sh: "s = h" using begin_pos_block[OF inv] w(1) by (simp add: s_def h_def)
    have kk: "k = length bs - 1"
      using end_pos_block[OF inv] w(2) sh len ne
      by (simp add: k_def s_def [symmetric] h_def bs_def)
    have bd: "\<And>x. x \<in> set bs \<Longrightarrow> block_data bs (block_id x) = data x"
    proof -
      fix x assume "x \<in> set bs"
      then obtain i where i: "i < length bs" "x = bs ! i" by (auto simp: in_set_conv_nth)
      then show "block_data bs (block_id x) = data x"
        using block_data_nth[OF ids i(1)] ids_from_nth[OF ids i(1)] by simp
    qed
    have "concat (map (read_iov bs) vecs) =
            drop (m_position start) (concat (map data (take k bs)) @
               take (m_position end_itr) (data (bs ! k)))"
    proof (rule getIOV_loop_concat[where s = s and n = max_size and D = D and blks = bs])
      show "ids_from s bs" using ids sh by simp
      show "k < length bs" using kk l0 by linarith
      have "length bs \<le> max_size" using w(3) by (simp add: bs_def)
      then show "k < max_size" using kk l0 by linarith
      show "list_all (\<lambda>x. length (data x) = D) bs" using inv by (simp add: buffer_inv_def bs_def)
      show "m_position start \<le> D" by (rule pD)
      show "k = 0 \<longrightarrow> m_position start \<le> m_position end_itr" by (rule p0)
      show "\<And>x. x \<in> set bs \<Longrightarrow> block_data bs (block_id x) = data x" by (rule bd)
      show "getIOV_loop D bs (s + k) (m_position end_itr) (m_position start) max_size = Inr vecs"
        using v(1) sh by simp
    qed
    then show ?thesis
      using w(1,2) kk ne
      by (simp add: content_def bs_def [symmetric] begin_pos_def end_pos_def
                    butlast_conv_take last_conv_nth)
  qed
  show ?thesis
    using g v(2) base fin whole by (auto simp: k_def)
qed

lemma ex3_inv: "buffer_inv 4 ex3"
  by (simp add: buffer_inv_def ex3_def)

lemma ex3_reached:
  "Buffer [''abcd'', ''efgh'', ''i---''] = Some b0 \<Longrightarrow> addBack 4 nd b0 ''abcdefghi'' = Inr ex3"
  by (auto simp: Buffer_def newBlock_def allocate_def addBack_def memcpy_def write_block_def
      ex3_def Let_def)

text \<open>
  Claim C4.  For positions \<open>start \<le> end\<close> of a buffer, \<^verbatim>\<open>getIOV(start, end, vecs, max)\<close>
  returns; it writes one descriptor per block from the block of \<open>start\<close> to the block
  of \<open>end\<close>, at most \<open>max\<close> of them, and returns their number; descriptor \<open>j\<close> lies in
  the \<open>j\<close>-th of these blocks, the first starts at the offset of \<open>start\<close> and the later
  ones at the begin of their block; each ends at the end of its block, but the one in
  the block of \<open>end\<close> ends at the offset of \<open>end\<close>.  When \<open>max\<close> does not cap the call
  \<^verbatim>\<open>getIOV(begin(), end(), vecs, max)\<close>, the spans of the descriptors, concatenated, are
  the logical byte sequence of the buffer.
\<close>

theorem getIOV_covers_range:
  assumes "buffer_inv D b"
    and "iter_valid D b start" and "iter_valid D b end_itr"
    and "iter_less start end_itr \<or> iter_eq start end_itr"
  shows "\<exists>vecs. getIOV D nd b start end_itr max_size = Inr vecs
     \<and> length vecs = min max_size (Suc (m_block end_itr - m_block start))
     \<and> (\<forall>j<length vecs. iov_base (vecs ! j) =
            (m_block start + j, if j = 0 then m_position start else 0))
     \<and> (\<forall>j<length vecs. snd (iov_base (vecs ! j)) + iov_len (vecs ! j) =
            (if j = m_block end_itr - m_block start then m_position end_itr else D))
     \<and> (start = begin_pos b \<and> end_itr = end_pos b \<and> length (m_blocks b) \<le> max_size
          \<longrightarrow> concat (map (read_iov (m_blocks b)) vecs) = content b)"
  using assms by (rule getIOV_props)

theorem getIOV_covers_range_witness:
  "buffer_inv 4 ex3 \<and> iter_valid 4 ex3 (begin_pos ex3) \<and> iter_valid 4 ex3 (end_pos ex3)
   \<and> (iter_less (begin_pos ex3) (end_pos ex3) \<or> iter_eq (begin_pos ex3) (end_pos ex3))
   \<and> (\<exists>vecs. getIOV 4 False ex3 (begin_pos ex3) (end_pos ex3) 16 = Inr vecs
         \<and> length vecs = 3
         \<and> concat (map (read_iov (m_blocks ex3)) vecs) = ''abcdefghi'')"
proof -
  have h1: "iter_valid 4 ex3 (begin_pos ex3)" and h2: "iter_valid 4 ex3 (end_pos ex3)"
    by (simp_all add: iter_valid_def begin_pos_def end_pos_def ex3_def)
  have h3: "iter_less (begin_pos ex3) (end_pos ex3) \<or> iter_eq (begin_pos ex3) (end_pos ex3)"
    by (simp add: iter_less_def begin_pos_def end_pos_def ex3_def)
  have c: "content ex3 = ''abcdefghi''" by (simp add: content_def ex3_def)
  have m: "m_block (end_pos ex3) - m_block (begin_pos ex3) = 2" "length (m_blocks ex3) \<le> 16"
    by (simp_all add: begin_pos_def end_pos_def ex3_def)
  from getIOV_covers_range[OF ex3_inv h1 h2 h3, of False 16] c m
  have "\<exists>vecs. getIOV 4 False ex3 (begin_pos ex3) (end_pos ex3) 16 = Inr vecs
         \<and> length vecs = 3
         \<and> concat (map (read_iov (m_blocks ex3)) vecs) = ''abcdefghi''"
    by auto
  with ex3_inv h1 h2 h3 show ?thesis by blast
qed

text \<open>
  Claim C10.  For an empty range, \<open>start = end\<close>, and \<open>max \<ge> 1\<close>, \<^verbatim>\<open>getIOV\<close> returns 1: it
  has written the single descriptor whose base is the shared position and whose length
  is 0.  For every range \<open>start \<le> end\<close> and \<open>max \<ge> 1\<close> it returns at least 1.
\<close>

theorem getIOV_empty_range:
  assumes "buffer_inv D b"
    and "iter_valid D b start" and "iter_valid D b end_itr"
    and "iter_less start end_itr \<or> iter_eq start end_itr"
    and "1 \<le> max_size"
  shows "getIOV D nd b start start max_size =
           Inr [\<lparr>iov_base = (m_block start, m_position start), iov_len = 0\<rparr>]
     \<and> (\<exists>vecs. getIOV D nd b start end_itr max_size = Inr vecs \<and> 1 \<le> length vecs)"
proof -
  have "iter_less start start \<or> iter_eq start start" by (simp add: iter_eq_def)
  from getIOV_props[OF assms(1,2,2) this, of nd max_size] obtain vecs where
    v: "getIOV D nd b start start max_size = Inr vecs" "length vecs = min max_size (Suc 0)"
       "\<forall>j<length vecs. iov_base (vecs ! j) =
            (m_block start + j, if j = 0 then m_position start else 0)"
       "\<forall>j<length vecs. snd (iov_base (vecs ! j)) + iov_len (vecs ! j) =
            (if j = m_block start - m_block start then m_position start else D)"
    by auto
  from v(2) assms(5) have l: "length vecs = 1" by simp
  then obtain v0 where v0: "vecs = [v0]" by (cases vecs) auto
  from v(3,4) l v0 have "iov_base v0 = (m_block start, m_position start)" "iov_len v0 = 0"
    by auto
  then have "v0 = \<lparr>iov_base = (m_block start, m_position start), iov_len = 0\<rparr>" by simp
  with v(1) v0 have first: "getIOV D nd b start start max_size =
           Inr [\<lparr>iov_base = (m_block start, m_position start), iov_len = 0\<rparr>]" by simp
  from getIOV_props[OF assms(1-4), of nd max_size] assms(5)
  have "\<exists>vecs. getIOV D nd b start end_itr max_size = Inr vecs \<and> 1 \<le> length vecs"
    by auto
  with first show ?thesis by blast
qed

theorem getIOV_empty_range_witness:
  "buffer_inv 4 ex3 \<and> iter_valid 4 ex3 (end_pos ex3) \<and> iter_valid 4 ex3 (begin_pos ex3)
   \<and> (1::nat) \<le> 1
   \<and> getIOV 4 False ex3 (end_pos ex3) (end_pos ex3) 1 = Inr [\<lparr>iov_base = (2, 1), iov_len = 0\<rparr>]
   \<and> (\<exists>vecs. getIOV 4 False ex3 (begin_pos ex3) (end_pos ex3) 1 = Inr vecs \<and> 1 \<le> length vecs)"
proof -
  have h1: "iter_valid 4 ex3 (begin_pos ex3)" and h2: "iter_valid 4 ex3 (end_pos ex3)"
    by (simp_all add: iter_valid_def begin_pos_def end_pos_def ex3_def)
  have h3: "iter_less (begin_pos ex3) (end_pos ex3) \<or> iter_eq (begin_pos ex3) (end_pos ex3)"
    by (simp add: iter_less_def begin_pos_def end_pos_def ex3_def)
  have h4: "iter_less (end_pos ex3) (end_pos ex3) \<or> iter_eq (end_pos ex3) (end_pos ex3)"
    by (simp add: iter_eq_def)
  have p: "m_block (end_pos ex3) = 2" "m_position (end_pos ex3) = 1"
    by (simp_all add: end_pos_def ex3_def)
  from getIOV_empty_range[OF ex3_inv h2 h2 h4, of 1 False] p
  have a: "getIOV 4 False ex3 (end_pos ex3) (end_pos ex3) 1 =
             Inr [\<lparr>iov_base = (2, 1), iov_len = 0\<rparr>]" by simp
  from getIOV_empty_range[OF ex3_inv h1 h2 h3, of 1 False]
  have b: "\<exists>vecs. getIOV 4 False ex3 (begin_pos ex3) (end_pos ex3) 1 = Inr vecs \<and> 1 \<le> length vecs"
    by simp
  from ex3_inv h1 h2 a b show ?thesis by simp
qed

subsection \<open>\<^verbatim>\<open>dropBack\<close>\<close>

declare dropBack_loop.simps [simp del]

lemma delBlockAndPrev_last:
  "Suc (Suc j) = length (m_blocks b) \<Longrightarrow>
   delBlockAndPrev b (Suc j) =
     Inr (j, b\<lparr>m_blocks := take (Suc j) (m_blocks b),
               m_all := deallocate (data (m_blocks b ! Suc j)) (m_all b),
               m_blockId := m_blockId b - 1\<rparr>)"
  by (simp add: delBlockAndPrev_def delBlock_def)

lemma dropBack_loop_result:
  "dropBack_loop D nd b block sz left_in_block = Inr (b', block', sz')
   \<Longrightarrow> Suc block = length (m_blocks b)
   \<Longrightarrow> Suc block' = length (m_blocks b') \<and> block' \<le> block
       \<and> m_blocks b' = take (Suc block') (m_blocks b)
       \<and> m_blockId b' = m_blockId b - (block - block')
       \<and> m_iterators b' = m_iterators b \<and> m_begin b' = m_begin b
       \<and> length (m_all b') = length (m_all b) + (block - block')
       \<and> (block' = block \<longrightarrow> b' = b \<and> sz' = sz \<and> sz \<le> left_in_block)
       \<and> (block' < block \<longrightarrow> m_end b' = D \<and> 0 < sz' \<and> sz' \<le> D
              \<and> sz = sz' + left_in_block + (block - block' - 1) * D)"
proof (induction block arbitrary: b sz left_in_block)
  case 0
  then show ?case
    by (simp add: dropBack_loop.simps[of D nd b 0 sz left_in_block] delBlockAndPrev_def split: if_splits)
next
  case (Suc j)
  show ?case
  proof (cases "sz > left_in_block")
    case False
    with Suc.prems show ?thesis by (simp add: dropBack_loop.simps[of D nd b "Suc j" sz left_in_block])
  next
    case True
    define b1 where "b1 = b\<lparr>m_blocks := take (Suc j) (m_blocks b),
               m_all := deallocate (data (m_blocks b ! Suc j)) (m_all b),
               m_blockId := m_blockId b - 1\<rparr>"
    have d: "delBlockAndPrev b (Suc j) = Inr (j, b1)"
      using Suc.prems(2) by (simp add: delBlockAndPrev_last b1_def)
    from Suc.prems(1) True d
    have r: "dropBack_loop D nd (b1\<lparr>m_end := D\<rparr>) j (sz - left_in_block) D = Inr (b', block', sz')"
      by (simp add: dropBack_loop.simps[of D nd b "Suc j" sz left_in_block] split: if_splits)
    have l: "Suc j = length (m_blocks (b1\<lparr>m_end := D\<rparr>))"
      using Suc.prems(2) by (simp add: b1_def)
    note ih = Suc.IH[OF r l]
    from ih have i1: "Suc block' = length (m_blocks b')" and bj: "block' \<le> j"
      and i3: "m_blocks b' = take (Suc block') (m_blocks (b1\<lparr>m_end := D\<rparr>))"
      and i4: "m_blockId b' = m_blockId (b1\<lparr>m_end := D\<rparr>) - (j - block')"
      and i5: "m_iterators b' = m_iterators (b1\<lparr>m_end := D\<rparr>)"
      and i6: "m_begin b' = m_begin (b1\<lparr>m_end := D\<rparr>)"
      and i7: "length (m_all b') = length (m_all (b1\<lparr>m_end := D\<rparr>)) + (j - block')"
      and i8: "block' = j \<longrightarrow> b' = b1\<lparr>m_end := D\<rparr> \<and> sz' = sz - left_in_block
                 \<and> sz - left_in_block \<le> D"
      and i9: "block' < j \<longrightarrow> m_end b' = D \<and> 0 < sz' \<and> sz' \<le> D
                 \<and> sz - left_in_block = sz' + D + (j - block' - 1) * D"
      by blast+
    have t: "m_blocks b' = take (Suc block') (m_blocks b)"
      using i3 bj by (simp add: b1_def min_def)
    have c: "m_blockId b' = m_blockId b - (Suc j - block')"
      using i4 bj by (simp add: b1_def)
    have it: "m_iterators b' = m_iterators b" using i5 by (simp add: b1_def)
    have bg: "m_begin b' = m_begin b" using i6 by (simp add: b1_def)
    have al: "length (m_all b') = length (m_all b) + (Suc j - block')"
      using i7 bj by (simp add: b1_def deallocate_def)
    have e: "m_end b' = D"
    proof (cases "block' = j")
      case True
      with i8 have "b' = b1\<lparr>m_end := D\<rparr>" by blast
      then show ?thesis by simp
    next
      case False
      with bj i9 show ?thesis by simp
    qed
    have s: "0 < sz' \<and> sz' \<le> D \<and> sz = sz' + left_in_block + (j - block') * D"
    proof (cases "block' = j")
      case True
      with i8 have "sz' = sz - left_in_block" "sz - left_in_block \<le> D" by blast+
      with \<open>sz > left_in_block\<close> True show ?thesis by simp
    next
      case False
      with bj have lt: "block' < j" by simp
      with i9 have "0 < sz'" "sz' \<le> D" "sz - left_in_block = sz' + D + (j - block' - 1) * D"
        by blast+
      moreover have "D + (j - block' - 1) * D = (j - block') * D"
        using lt by (simp add: mult_eq_if)
      ultimately show ?thesis using \<open>sz > left_in_block\<close> by simp
    qed
    have lt: "block' < Suc j" using bj by simp
    have "Suc j - block' - 1 = j - block'" by simp
    with i1 bj t c it bg al e s lt show ?thesis by simp
  qed
qed

lemma dropBack_loop_returns:
  "Suc block = length (m_blocks b) \<Longrightarrow> sz \<le> block * D + left_in_block
   \<Longrightarrow> nd \<or> m_iterators b = []
   \<Longrightarrow> \<exists>r. dropBack_loop D nd b block sz left_in_block = Inr r"
proof (induction block arbitrary: b sz left_in_block)
  case 0
  then show ?case by (simp add: dropBack_loop.simps[of D nd b 0 sz left_in_block])
next
  case (Suc j)
  show ?case
  proof (cases "sz > left_in_block")
    case False
    then show ?thesis by (simp add: dropBack_loop.simps[of D nd b "Suc j" sz left_in_block])
  next
    case True
    define b1 where "b1 = b\<lparr>m_blocks := take (Suc j) (m_blocks b),
               m_all := deallocate (data (m_blocks b ! Suc j)) (m_all b),
               m_blockId := m_blockId b - 1\<rparr>"
    have d: "delBlockAndPrev b (Suc j) = Inr (j, b1)"
      using Suc.prems(1) by (simp add: delBlockAndPrev_last b1_def)
    have "\<exists>r. dropBack_loop D nd (b1\<lparr>m_end := D\<rparr>) j (sz - left_in_block) D = Inr r"
      using Suc.prems True by (intro Suc.IH) (auto simp: b1_def)
    moreover have "m_blocks b \<noteq> []" using Suc.prems(1) by auto
    moreover have "nd \<or> m_iterators b1 = []" using Suc.prems(3) by (simp add: b1_def)
    ultimately show ?thesis
      using True d by (auto simp: dropBack_loop.simps[of D nd b "Suc j" sz left_in_block])
  qed
qed

lemma dropBack_result:
  assumes r: "dropBack D nd b k = Inr b'"
  shows "m_blocks b' \<noteq> [] \<and> length (m_blocks b') \<le> length (m_blocks b)
       \<and> m_blocks b' = take (length (m_blocks b')) (m_blocks b)
       \<and> m_blockId b' = m_blockId b - (length (m_blocks b) - length (m_blocks b'))
       \<and> m_iterators b' = m_iterators b \<and> m_begin b' = m_begin b
       \<and> length (m_all b') = length (m_all b) + (length (m_blocks b) - length (m_blocks b'))
       \<and> (length (m_blocks b') = length (m_blocks b)
             \<longrightarrow> k \<le> m_end b \<and> m_end b' = m_end b - k \<and> m_blocks b' = m_blocks b)
       \<and> (length (m_blocks b') < length (m_blocks b)
             \<longrightarrow> m_end b' < D \<and> m_end b < k
               \<and> k + m_end b' = m_end b + (length (m_blocks b) - length (m_blocks b')) * D)"
proof -
  from r have ne: "m_blocks b \<noteq> []" by (auto simp: dropBack_def split: if_splits)
  then have l: "Suc (length (m_blocks b) - 1) = length (m_blocks b)" by simp
  from r ne obtain b1 block sz' where
    lp: "dropBack_loop D nd b (length (m_blocks b) - 1) k (m_end b) = Inr (b1, block, sz')"
    and b': "b' = b1\<lparr>m_end := m_end b1 - sz'\<rparr>"
    by (auto simp: dropBack_def Let_def split: if_splits sum.splits)
  note res = dropBack_loop_result[OF lp l]
  from res have i1: "Suc block = length (m_blocks b1)"
    and i2: "block \<le> length (m_blocks b) - 1"
    and i3: "m_blocks b1 = take (Suc block) (m_blocks b)"
    and i4: "m_blockId b1 = m_blockId b - (length (m_blocks b) - 1 - block)"
    and i5: "m_iterators b1 = m_iterators b" and i6: "m_begin b1 = m_begin b"
    and i7: "length (m_all b1) = length (m_all b) + (length (m_blocks b) - 1 - block)"
    and i8: "block = length (m_blocks b) - 1 \<longrightarrow> b1 = b \<and> sz' = k \<and> k \<le> m_end b"
    and i9: "block < length (m_blocks b) - 1 \<longrightarrow> m_end b1 = D \<and> 0 < sz' \<and> sz' \<le> D
               \<and> k = sz' + m_end b + (length (m_blocks b) - 1 - block - 1) * D"
    by blast+
  define n where "n = length (m_blocks b)"
  have n0: "0 < n" using ne by (simp add: n_def)
  have lb: "length (m_blocks b') = Suc block" using i1 b' by simp
  have d: "n - 1 - block = n - Suc block" by simp
  have same: "k \<le> m_end b \<and> m_end b' = m_end b - k \<and> m_blocks b' = m_blocks b"
    if "Suc block = n"
  proof -
    from that have "block = length (m_blocks b) - 1" by (simp add: n_def)
    with i8 have "b1 = b" "sz' = k" "k \<le> m_end b" by blast+
    then show ?thesis using b' by simp
  qed
  have less: "m_end b' < D \<and> m_end b < k \<and> k + m_end b' = m_end b + (n - Suc block) * D"
    if "Suc block < n"
  proof -
    from that have "block < length (m_blocks b) - 1" by (simp add: n_def)
    with i9 have e: "m_end b1 = D" and s: "0 < sz'" "sz' \<le> D"
      and k: "k = sz' + m_end b + (n - 1 - block - 1) * D"
      unfolding n_def by blast+
    have "D + (n - 1 - block - 1) * D = (n - Suc block) * D"
      using that by (simp add: mult_eq_if)
    with k s have "k + (D - sz') = m_end b + (n - Suc block) * D" by simp
    moreover have "m_end b' = D - sz'" using b' e by simp
    ultimately show ?thesis using s k by simp
  qed
  have c1: "m_blocks b' \<noteq> []" using lb by auto
  have c2: "length (m_blocks b') \<le> n" using lb i2 n0 unfolding n_def by linarith
  have c3: "m_blocks b' = take (length (m_blocks b')) (m_blocks b)"
    unfolding lb using i3 b' by simp
  have c4: "m_blockId b' = m_blockId b - (n - length (m_blocks b'))"
    unfolding lb using i4 b' d by (simp add: n_def)
  have c5: "m_iterators b' = m_iterators b" "m_begin b' = m_begin b"
    using i5 i6 b' by simp_all
  have c6: "length (m_all b') = length (m_all b) + (n - length (m_blocks b'))"
    unfolding lb using i7 b' d by (simp add: n_def)
  have c7: "length (m_blocks b') = n
             \<longrightarrow> k \<le> m_end b \<and> m_end b' = m_end b - k \<and> m_blocks b' = m_blocks b"
    unfolding lb using same by blast
  have c8: "length (m_blocks b') < n
             \<longrightarrow> m_end b' < D \<and> m_end b < k
               \<and> k + m_end b' = m_end b + (n - length (m_blocks b')) * D"
    unfolding lb using less by blast
  from c1 c2 c3 c4 c5 c6 c7 c8 show ?thesis unfolding n_def by blast
qed

lemma dropBack_returns:
  assumes inv: "buffer_inv D b" and k: "0 < k" "k \<le> buffer_size D b"
    and its: "nd \<or> m_iterators b = []"
  shows "\<exists>b'. dropBack D nd b k = Inr b'"
proof -
  define n where "n = length (m_blocks b)"
  from inv have ne: "m_blocks b \<noteq> []" and e: "m_end b < D"
    and one: "n = 1 \<longrightarrow> m_begin b \<le> m_end b" and bg: "m_begin b \<le> D"
    by (simp_all add: buffer_inv_def n_def)
  then have l: "Suc (n - 1) = length (m_blocks b)" by (simp add: n_def)
  have kk: "k \<le> (n - 1) * D + m_end b" using k(2) by (simp add: buffer_size_def n_def)
  from dropBack_loop_returns[OF l kk its] obtain b1 block sz' where
    lp: "dropBack_loop D nd b (n - 1) k (m_end b) = Inr (b1, block, sz')"
    by (metis prod_cases3)
  note res = dropBack_loop_result[OF lp l]
  from res have i2: "block \<le> n - 1"
    and i5: "m_iterators b1 = m_iterators b" and i6: "m_begin b1 = m_begin b"
    and i8: "block = n - 1 \<longrightarrow> b1 = b \<and> sz' = k \<and> k \<le> m_end b"
    and i9: "block < n - 1 \<longrightarrow> m_end b1 = D \<and> 0 < sz' \<and> sz' \<le> D
               \<and> k = sz' + m_end b + (n - 1 - block - 1) * D"
    by blast+
  have a1: "sz' \<le> m_end b1"
  proof (cases "block = n - 1")
    case True with i8 show ?thesis by auto
  next
    case False with i2 i9 show ?thesis by auto
  qed
  have a3: "block = 0 \<longrightarrow> m_begin b1 \<le> m_end b1 - sz'"
  proof
    assume z: "block = 0"
    show "m_begin b1 \<le> m_end b1 - sz'"
    proof (cases "block = n - 1")
      case True
      with i8 have "b1 = b" "sz' = k" by blast+
      moreover have "0 < n" using ne by (simp add: n_def)
      with True z have "n = 1" by linarith
      ultimately show ?thesis using k(2) one by (simp add: buffer_size_def n_def)
    next
      case False
      with i2 i9 z have "m_end b1 = D" "k = sz' + m_end b + (n - 1 - 1) * D" "sz' \<le> D"
        by auto
      moreover have "D + (n - 1 - 1) * D = (n - 1) * D"
        using False z by (simp add: mult_eq_if)
      ultimately show ?thesis using k(2) i6 bg e by (simp add: buffer_size_def n_def)
    qed
  qed
  show ?thesis
    using lp k(1) ne its i5 a1 a3
    by (auto simp: dropBack_def Let_def n_def [symmetric])
qed

lemma freed_blocks_div:
  assumes D: "0 < D" and e: "e < D" and e': "e' < D"
    and z: "j = 0 \<longrightarrow> k \<le> e" and eq: "0 < j \<longrightarrow> k + e' = e + j * D"
  shows "(k + (D - 1) - e) div D = (j::nat)"
proof (cases "j = 0")
  case True
  with z have "k + (D - 1) - e < D" using D e by simp
  then show ?thesis using True by simp
next
  case False
  with eq have k: "k + e' = e + j * D" by simp
  have "k + (D - 1) - e = j * D + (D - 1 - e')" using k e' D e by simp
  moreover have "D - 1 - e' < D" using D by simp
  ultimately show ?thesis by simp
qed

text \<open>
  Claim C2, as the code has it.  \<^verbatim>\<open>delBlockAndPrev\<close> decrements \<^verbatim>\<open>m_blockId\<close> for every
  block that \<^verbatim>\<open>dropBack\<close> frees, so whenever \<^verbatim>\<open>dropBack(k)\<close> returns, with or without
  registered iterators and with or without assertions, the counter is its old value
  minus the number of freed blocks, which is \<open>\<lceil>(k - (m_end - begin)) / D\<rceil>\<close>; it keeps its
  value only when no block is freed.  The counter stays one above the id of the tail
  block, so the next block appended takes the id of the block freed last.
\<close>

theorem dropBack_blockId:
  assumes "buffer_inv D b" and "dropBack D nd b k = Inr b'"
  shows "length (m_blocks b') = length (m_blocks b) - (k + (D - 1) - m_end b) div D
     \<and> m_blockId b' = m_blockId b - (k + (D - 1) - m_end b) div D
     \<and> (k \<le> m_end b \<longrightarrow> m_blockId b' = m_blockId b)
     \<and> (m_end b < k \<longrightarrow> m_blockId b' < m_blockId b)
     \<and> m_blockId b' = block_id (last (m_blocks b')) + 1"
proof -
  note r = assms(2)
  define n where "n = length (m_blocks b)"
  define n' where "n' = length (m_blocks b')"
  from dropBack_result[OF r] have ne': "m_blocks b' \<noteq> []" and le: "n' \<le> n"
    and tk: "m_blocks b' = take n' (m_blocks b)"
    and id: "m_blockId b' = m_blockId b - (n - n')"
    and same: "n' = n \<longrightarrow> k \<le> m_end b"
    and less: "n' < n \<longrightarrow> m_end b' < D \<and> m_end b < k \<and> k + m_end b' = m_end b + (n - n') * D"
    unfolding n_def n'_def by blast+
  from assms(1) have D: "0 < D" and e: "m_end b < D" and nid: "n \<le> m_blockId b"
    and ids: "ids_from (m_blockId b - n) (m_blocks b)"
    by (simp_all add: buffer_inv_def n_def)
  have n'0: "0 < n'" using ne' by (simp add: n'_def)
  define e' where "e' = (if n' < n then m_end b' else 0)"
  have "(k + (D - 1) - m_end b) div D = n - n'"
  proof (rule freed_blocks_div[OF D e, of e'])
    show "e' < D" using less D by (simp add: e'_def)
    show "n - n' = 0 \<longrightarrow> k \<le> m_end b" using same le by simp
    show "0 < n - n' \<longrightarrow> k + e' = m_end b + (n - n') * D" using less by (simp add: e'_def)
  qed
  then have fr: "(k + (D - 1) - m_end b) div D = n - n'" .
  have c1: "n' = n - (k + (D - 1) - m_end b) div D" using fr le by simp
  have c2: "m_blockId b' = m_blockId b - (k + (D - 1) - m_end b) div D" using fr id by simp
  have c3: "k \<le> m_end b \<longrightarrow> m_blockId b' = m_blockId b"
    using id less le by (cases "n' = n") auto
  have c4: "m_end b < k \<longrightarrow> m_blockId b' < m_blockId b"
  proof
    assume "m_end b < k"
    with same le have "n' < n" by (cases "n' = n") auto
    with id nid show "m_blockId b' < m_blockId b" by simp
  qed
  have "last (take n' (m_blocks b)) = take n' (m_blocks b) ! (n' - 1)"
    using n'0 le by (subst last_conv_nth) (auto simp: n_def min_def)
  then have "last (m_blocks b') = m_blocks b ! (n' - 1)"
    using tk n'0 by simp
  moreover have "block_id (m_blocks b ! (n' - 1)) = m_blockId b - n + (n' - 1)"
    using n'0 le by (intro ids_from_nth[OF ids]) (simp add: n_def)
  ultimately have c5: "m_blockId b' = block_id (last (m_blocks b')) + 1"
    using id n'0 le nid by simp
  from c1 c2 c3 c4 c5 show ?thesis unfolding n_def n'_def by blast
qed

theorem dropBack_blockId_witness:
  "buffer_inv 4 (ex3\<lparr>m_iterators := [\<lparr>m_block = 0, m_position = 1\<rparr>]\<rparr>)
   \<and> m_blockId (ex3\<lparr>m_iterators := [\<lparr>m_block = 0, m_position = 1\<rparr>]\<rparr>) = 3
   \<and> dropBack 4 False (ex3\<lparr>m_iterators := [\<lparr>m_block = 0, m_position = 1\<rparr>]\<rparr>) 2 =
       Inr \<lparr>m_blocks = [\<lparr>block_id = 0, data = ''abcd''\<rparr>, \<lparr>block_id = 1, data = ''efgh''\<rparr>],
            m_iterators = [\<lparr>m_block = 0, m_position = 1\<rparr>], m_blockId = 2,
            m_begin = 0, m_end = 3, m_all = [''i---'']\<rparr>
   \<and> m_blockId \<lparr>m_blocks = [\<lparr>block_id = 0, data = ''abcd''\<rparr>, \<lparr>block_id = 1, data = ''efgh''\<rparr>],
            m_iterators = [\<lparr>m_block = 0, m_position = 1\<rparr>], m_blockId = 2,
            m_begin = 0, m_end = 3, m_all = [''i---'']\<rparr> =
       m_blockId (ex3\<lparr>m_iterators := [\<lparr>m_block = 0, m_position = 1\<rparr>]\<rparr>)
         - (2 + (4 - 1) - m_end (ex3\<lparr>m_iterators := [\<lparr>m_block = 0, m_position = 1\<rparr>]\<rparr>)) div 4"
proof -
  define w where "w = ex3\<lparr>m_iterators := [\<lparr>m_block = 0, m_position = 1\<rparr>]\<rparr>"
  define w' where "w' = \<lparr>m_blocks = [\<lparr>block_id = 0, data = ''abcd''\<rparr>,
      \<lparr>block_id = 1, data = ''efgh''\<rparr>], m_iterators = [\<lparr>m_block = 0, m_position = 1\<rparr>],
      m_blockId = 2, m_begin = 0, m_end = 3, m_all = [''i---'']\<rparr>"
  have i: "buffer_inv 4 w" by (simp add: w_def ex3_def buffer_inv_def)
  have r: "dropBack 4 False w 2 = Inr w'"
    by (simp add: dropBack_def dropBack_loop.simps delBlockAndPrev_def delBlock_def
        deallocate_def w_def w'_def ex3_def Let_def)
  have c: "m_blockId w = 3" by (simp add: w_def ex3_def)
  from dropBack_blockId[OF i r]
  have "m_blockId w' = m_blockId w - (2 + (4 - 1) - m_end w) div 4" by blast
  with i r c show ?thesis unfolding w_def w'_def by blast
qed

theorem dropBack_blockId_counterexample:
  "buffer_inv 4 ex3 \<and> 2 \<le> buffer_size 4 ex3 \<and> m_iterators ex3 = [] \<and> m_blockId ex3 = 3
   \<and> dropBack 4 False ex3 2 =
       Inr \<lparr>m_blocks = [\<lparr>block_id = 0, data = ''abcd''\<rparr>, \<lparr>block_id = 1, data = ''efgh''\<rparr>],
            m_iterators = [], m_blockId = 2, m_begin = 0, m_end = 3, m_all = [''i---'']\<rparr>"
proof -
  have "dropBack 4 False ex3 2 =
       Inr \<lparr>m_blocks = [\<lparr>block_id = 0, data = ''abcd''\<rparr>, \<lparr>block_id = 1, data = ''efgh''\<rparr>],
            m_iterators = [], m_blockId = 2, m_begin = 0, m_end = 3, m_all = [''i---'']\<rparr>"
    by (simp add: dropBack_def dropBack_loop.simps delBlockAndPrev_def delBlock_def
        deallocate_def ex3_def Let_def)
  moreover have "2 \<le> buffer_size 4 ex3" "m_iterators ex3 = []" "m_blockId ex3 = 3"
    by (simp_all add: buffer_size_def ex3_def)
  ultimately show ?thesis using ex3_inv by simp
qed

subsection \<open>\<^verbatim>\<open>memcpy\<close> and the transient list\<close>

declare addBack_loop.simps [simp del]
declare advance_loop.simps [simp del]

lemma memcpy_other: "p \<notin> block_id ` set bs \<Longrightarrow> memcpy bs p off src = bs"
  by (induction bs) (auto simp: memcpy_def)

lemma memcpy_length [simp]: "length (memcpy bs p off src) = length bs"
  by (simp add: memcpy_def)

lemma memcpy_ids [simp]: "map block_id (memcpy bs p off src) = map block_id bs"
  by (induction bs) (auto simp: memcpy_def write_block_def)

lemma memcpy_last:
  assumes "ids_from h bs" "bs \<noteq> []"
  shows "memcpy bs (block_id (last bs)) off src = butlast bs @ [write_block off src (last bs)]"
proof -
  from assms(2) obtain xs x where bs: "bs = xs @ [x]" by (metis append_butlast_last_id)
  from assms(1) have "ids_from h xs" "block_id x = h + length xs"
    by (simp_all add: bs ids_from_append)
  from ids_from_set[OF this(1)] this(2) have "block_id x \<notin> block_id ` set xs" by simp
  then have "memcpy xs (block_id x) off src = xs" by (rule memcpy_other)
  then show ?thesis by (simp add: bs memcpy_def)
qed

lemma Blocks_dtor_eq:
  "Blocks_dtor xs b =
     b\<lparr>m_all := rev (map data xs) @ m_all b, m_blockId := m_blockId b - length xs\<rparr>"
  by (induction xs arbitrary: b) (simp_all add: deallocate_def)

lemma write_block_length:
  "off + length src \<le> length (data x) \<Longrightarrow> length (data (write_block off src x)) = length (data x)"
  by (simp add: write_block_def)

lemma write_block_id [simp]: "block_id (write_block off src x) = block_id x"
  by (simp add: write_block_def)

lemma ids_from_butlast_snoc:
  "ids_from h bs \<Longrightarrow> bs \<noteq> [] \<Longrightarrow> block_id y = block_id (last bs)
     \<Longrightarrow> ids_from h (butlast bs @ [y])"
proof -
  assume a: "ids_from h bs" "bs \<noteq> []" "block_id y = block_id (last bs)"
  from a(2) obtain xs x where bs: "bs = xs @ [x]" by (metis append_butlast_last_id)
  with a show ?thesis by (simp add: ids_from_append)
qed

lemma ids_from_last:
  "ids_from h bs \<Longrightarrow> bs \<noteq> [] \<Longrightarrow> block_id (last bs) = h + length bs - 1"
  by (cases bs rule: rev_cases) (simp_all add: ids_from_append)

text \<open>
  The loop of \<^verbatim>\<open>addBack\<close> from its second round on: \<^verbatim>\<open>new_end\<close> is the begin of the
  newest transient block and a whole block of bytes is left to copy.
\<close>

lemma addBack_loop_tail:
  assumes "nb \<noteq> []" and "ids_from h nb" and "h + length nb = m_blockId b"
    and "\<forall>p \<in> block_id ` set (m_blocks b). p < h"
    and "0 < D" and "D \<le> length buf"
    and "list_all (\<lambda>x. length (data x) = D) nb"
    and "list_all (\<lambda>c. length c = D) (m_all b)"
  shows "(length buf div D \<le> length (m_all b) \<longrightarrow>
            (\<exists>nb2. addBack_loop D b nb (block_id (last nb), 0) buf D =
                 Inr (b\<lparr>m_blockId := m_blockId b + length buf div D,
                        m_all := drop (length buf div D) (m_all b)\<rparr>,
                      nb2, (block_id (last nb2), 0), drop (length buf div D * D) buf)
               \<and> length nb2 = length nb + length buf div D \<and> ids_from h nb2
               \<and> list_all (\<lambda>x. length (data x) = D) nb2
               \<and> concat (map data (butlast nb2)) =
                   concat (map data (butlast nb)) @ take (length buf div D * D) buf))
       \<and> (length (m_all b) < length buf div D \<longrightarrow>
            (\<exists>nbt bt. addBack_loop D b nb (block_id (last nb), 0) buf D =
                 Inl (bad_alloc (Blocks_dtor nbt bt))
               \<and> length nbt = length nb + length (m_all b)
               \<and> bt = b\<lparr>m_blockId := m_blockId b + length (m_all b), m_all := []\<rparr>
               \<and> list_all (\<lambda>x. length (data x) = D) nbt))"
  using assms
proof (induction "length buf" arbitrary: buf b nb rule: less_induct)
  case less
  define chunk where "chunk = take D buf"
  define nb1 where "nb1 = butlast nb @ [write_block 0 chunk (last nb)]"
  have lc: "length chunk = D" using less.prems(6) by (simp add: chunk_def)
  have lastid: "block_id (last nb) = h + length nb - 1"
    using less.prems(1,2) by (rule ids_from_last[rotated])
  have "0 < length nb" using less.prems(1) by simp
  with lastid have "h \<le> block_id (last nb)" by linarith
  with less.prems(4) have notmain: "block_id (last nb) \<notin> block_id ` set (m_blocks b)"
    by (meson not_le)
  have m1: "memcpy (m_blocks b) (block_id (last nb)) 0 chunk = m_blocks b"
    using notmain by (rule memcpy_other)
  have m2: "memcpy nb (block_id (last nb)) 0 chunk = nb1"
    using less.prems(2,1) by (simp add: memcpy_last nb1_def)
  have b1: "b\<lparr>m_blocks := m_blocks b\<rparr> = b" by simp
  have ln: "length (data (last nb)) = D"
    using less.prems(1,7) by (simp add: list_all_iff)
  have wl: "data (write_block 0 chunk (last nb)) = chunk"
    using lc ln by (simp add: write_block_def)
  have nb1_len: "length nb1 = length nb" using less.prems(1) by (simp add: nb1_def)
  have nb1_ids: "ids_from h nb1"
    unfolding nb1_def using less.prems(2,1) by (rule ids_from_butlast_snoc) simp
  have nb1_all: "list_all (\<lambda>x. length (data x) = D) nb1"
    using less.prems(7) wl lc by (auto simp: nb1_def list_all_iff dest: in_set_butlastD)
  have nb1_data: "concat (map data nb1) = concat (map data (butlast nb)) @ chunk"
    by (simp add: nb1_def wl)
  have k1: "1 \<le> length buf div D"
    using less.prems(5,6) by (simp add: Suc_le_eq div_greater_zero_iff)
  note unf = addBack_loop.simps[of D b nb "(block_id (last nb), 0)" buf D]
  show ?case
  proof (cases "m_all b")
    case Nil
    have "addBack_loop D b nb (block_id (last nb), 0) buf D = Inl (bad_alloc (Blocks_dtor nb1 b))"
      using Nil by (simp add: unf chunk_def [symmetric] m1 m2 newBlock_def allocate_def)
    moreover have "b = b\<lparr>m_blockId := m_blockId b + length (m_all b), m_all := []\<rparr>"
      using Nil by simp
    ultimately have "\<exists>nbt bt. addBack_loop D b nb (block_id (last nb), 0) buf D =
                 Inl (bad_alloc (Blocks_dtor nbt bt))
               \<and> length nbt = length nb + length (m_all b)
               \<and> bt = b\<lparr>m_blockId := m_blockId b + length (m_all b), m_all := []\<rparr>
               \<and> list_all (\<lambda>x. length (data x) = D) nbt"
      using Nil nb1_len nb1_all by (intro exI[of _ nb1] exI[of _ b]) simp
    moreover have "\<not> length buf div D \<le> length (m_all b)" using Nil k1 by simp
    ultimately show ?thesis by blast
  next
    case (Cons c cs)
    define new where "new = \<lparr>block_id = m_blockId b, data = c\<rparr>"
    define b2 where "b2 = b\<lparr>m_blockId := m_blockId b + 1, m_all := cs\<rparr>"
    define nb2 where "nb2 = nb1 @ [new]"
    have nbk: "newBlock b nb1 = Some (nb2, b2)"
      using Cons by (simp add: newBlock_def allocate_def nb2_def b2_def new_def)
    have lastnb2: "block_id (last nb2) = m_blockId b" by (simp add: nb2_def new_def)
    have nb2_ids: "ids_from h nb2"
      using nb1_ids nb1_len less.prems(3) by (simp add: nb2_def ids_from_append new_def)
    have cD: "length c = D" using less.prems(8) Cons by simp
    have nb2_all: "list_all (\<lambda>x. length (data x) = D) nb2"
      using nb1_all cD by (simp add: nb2_def new_def)
    have nb2_data: "concat (map data (butlast nb2)) = concat (map data (butlast nb)) @ chunk"
      using nb1_data by (simp add: nb2_def)
    show ?thesis
    proof (cases "D \<le> length (drop D buf)")
      case False
      then have k: "length buf div D = 1"
        using less.prems(5,6) by (simp add: div_nat_eqI)
      have "addBack_loop D b nb (block_id (last nb), 0) buf D =
              Inr (b2, nb2, (block_id (last nb2), 0), drop D buf)"
        using False nbk by (simp add: unf chunk_def [symmetric] m1 m2)
      moreover have "b2 = b\<lparr>m_blockId := m_blockId b + length buf div D,
                        m_all := drop (length buf div D) (m_all b)\<rparr>"
        using k Cons by (simp add: b2_def)
      ultimately show ?thesis
        using k Cons nb2_ids nb2_all nb2_data nb1_len
        by (auto simp: nb2_def chunk_def)
    next
      case True
      define buf' where "buf' = drop D buf"
      have kk: "length buf div D = Suc (length buf' div D)"
        using less.prems(5,6) by (simp add: buf'_def le_div_geq)
      have rec: "addBack_loop D b nb (block_id (last nb), 0) buf D =
              addBack_loop D b2 nb2 (block_id (last nb2), 0) buf' D"
        using True nbk by (simp add: unf chunk_def [symmetric] m1 m2 buf'_def)
      have ih: "(length buf' div D \<le> length (m_all b2) \<longrightarrow>
            (\<exists>nb3. addBack_loop D b2 nb2 (block_id (last nb2), 0) buf' D =
                 Inr (b2\<lparr>m_blockId := m_blockId b2 + length buf' div D,
                        m_all := drop (length buf' div D) (m_all b2)\<rparr>,
                      nb3, (block_id (last nb3), 0), drop (length buf' div D * D) buf')
               \<and> length nb3 = length nb2 + length buf' div D \<and> ids_from h nb3
               \<and> list_all (\<lambda>x. length (data x) = D) nb3
               \<and> concat (map data (butlast nb3)) =
                   concat (map data (butlast nb2)) @ take (length buf' div D * D) buf'))
       \<and> (length (m_all b2) < length buf' div D \<longrightarrow>
            (\<exists>nbt bt. addBack_loop D b2 nb2 (block_id (last nb2), 0) buf' D =
                 Inl (bad_alloc (Blocks_dtor nbt bt))
               \<and> length nbt = length nb2 + length (m_all b2)
               \<and> bt = b2\<lparr>m_blockId := m_blockId b2 + length (m_all b2), m_all := []\<rparr>
               \<and> list_all (\<lambda>x. length (data x) = D) nbt))"
      proof (rule less.hyps)
        show "length buf' < length buf" using less.prems(5,6) by (simp add: buf'_def)
        show "nb2 \<noteq> []" by (simp add: nb2_def)
        show "ids_from h nb2" by (rule nb2_ids)
        show "h + length nb2 = m_blockId b2"
          using less.prems(3) nb1_len by (simp add: nb2_def b2_def)
        show "\<forall>p\<in>block_id ` set (m_blocks b2). p < h" using less.prems(4) by (simp add: b2_def)
        show "0 < D" by (rule less.prems(5))
        show "D \<le> length buf'" using True by (simp add: buf'_def)
        show "list_all (\<lambda>x. length (data x) = D) nb2" by (rule nb2_all)
        show "list_all (\<lambda>c. length c = D) (m_all b2)"
          using less.prems(8) Cons by (simp add: b2_def)
      qed
      have tk: "chunk @ take (length buf' div D * D) buf' = take (length buf div D * D) buf"
        using less.prems(6) by (simp add: kk chunk_def buf'_def take_add [symmetric] add.commute)
      have dr: "drop (length buf' div D * D) buf' = drop (length buf div D * D) buf"
        by (simp add: kk buf'_def add.commute)
      have st: "b2\<lparr>m_blockId := m_blockId b2 + length buf' div D,
                        m_all := drop (length buf' div D) (m_all b2)\<rparr> =
                b\<lparr>m_blockId := m_blockId b + length buf div D,
                        m_all := drop (length buf div D) (m_all b)\<rparr>"
        using Cons by (simp add: b2_def kk)
      have st2: "b2\<lparr>m_blockId := m_blockId b2 + length (m_all b2), m_all := []\<rparr> =
                 b\<lparr>m_blockId := m_blockId b + length (m_all b), m_all := []\<rparr>"
        using Cons by (simp add: b2_def)
      have lens: "length (m_all b2) = length (m_all b) - 1" "length (m_all b) = Suc (length cs)"
        "length nb2 = Suc (length nb)"
        using Cons nb1_len by (simp_all add: b2_def nb2_def)
      show ?thesis
      proof (intro conjI impI)
        assume "length buf div D \<le> length (m_all b)"
        then have "length buf' div D \<le> length (m_all b2)" using kk lens by simp
        with ih obtain nb3 where
          r: "addBack_loop D b2 nb2 (block_id (last nb2), 0) buf' D =
                 Inr (b2\<lparr>m_blockId := m_blockId b2 + length buf' div D,
                        m_all := drop (length buf' div D) (m_all b2)\<rparr>,
                      nb3, (block_id (last nb3), 0), drop (length buf' div D * D) buf')"
          and f: "length nb3 = length nb2 + length buf' div D" "ids_from h nb3"
               "list_all (\<lambda>x. length (data x) = D) nb3"
               "concat (map data (butlast nb3)) =
                   concat (map data (butlast nb2)) @ take (length buf' div D * D) buf'"
          by blast
        have "addBack_loop D b nb (block_id (last nb), 0) buf D =
                 Inr (b\<lparr>m_blockId := m_blockId b + length buf div D,
                        m_all := drop (length buf div D) (m_all b)\<rparr>,
                      nb3, (block_id (last nb3), 0), drop (length buf div D * D) buf)"
          using rec r st dr by simp
        moreover have "length nb3 = length nb + length buf div D" using f(1) lens kk by simp
        moreover have "concat (map data (butlast nb3)) =
                   concat (map data (butlast nb)) @ take (length buf div D * D) buf"
          using f(4) nb2_data tk by simp
        ultimately show "\<exists>nb2. addBack_loop D b nb (block_id (last nb), 0) buf D =
                 Inr (b\<lparr>m_blockId := m_blockId b + length buf div D,
                        m_all := drop (length buf div D) (m_all b)\<rparr>,
                      nb2, (block_id (last nb2), 0), drop (length buf div D * D) buf)
               \<and> length nb2 = length nb + length buf div D \<and> ids_from h nb2
               \<and> list_all (\<lambda>x. length (data x) = D) nb2
               \<and> concat (map data (butlast nb2)) =
                   concat (map data (butlast nb)) @ take (length buf div D * D) buf"
          using f(2,3) by blast
      next
        assume "length (m_all b) < length buf div D"
        then have "length (m_all b2) < length buf' div D" using kk lens by simp
        with ih obtain nbt bt where
          r: "addBack_loop D b2 nb2 (block_id (last nb2), 0) buf' D =
                 Inl (bad_alloc (Blocks_dtor nbt bt))"
          and f: "length nbt = length nb2 + length (m_all b2)"
               "bt = b2\<lparr>m_blockId := m_blockId b2 + length (m_all b2), m_all := []\<rparr>"
               "list_all (\<lambda>x. length (data x) = D) nbt"
          by blast
        have "length nbt = length nb + length (m_all b)" using f(1) lens by simp
        moreover have "bt = b\<lparr>m_blockId := m_blockId b + length (m_all b), m_all := []\<rparr>"
          using f(2) st2 by simp
        ultimately show "\<exists>nbt bt. addBack_loop D b nb (block_id (last nb), 0) buf D =
                 Inl (bad_alloc (Blocks_dtor nbt bt))
               \<and> length nbt = length nb + length (m_all b)
               \<and> bt = b\<lparr>m_blockId := m_blockId b + length (m_all b), m_all := []\<rparr>
               \<and> list_all (\<lambda>x. length (data x) = D) nbt"
          using rec r f(3) by auto
      qed
    qed
  qed
qed

lemma buffer_inv_main_ids:
  assumes "buffer_inv D b"
  shows "\<forall>p \<in> block_id ` set (m_blocks b). p < m_blockId b"
proof -
  from assms have i: "ids_from (m_blockId b - length (m_blocks b)) (m_blocks b)"
    and l: "length (m_blocks b) \<le> m_blockId b"
    by (simp_all add: buffer_inv_def)
  from ids_from_set[OF i] l show ?thesis by auto
qed

text \<open>The first round of the loop of \<^verbatim>\<open>addBack\<close>, followed by the remaining ones.\<close>

lemma addBack_loop_first:
  assumes inv: "buffer_inv D b" and le: "D - m_end b \<le> length buf"
  defines "left \<equiv> D - m_end b"
  defines "k \<equiv> (length buf - (D - m_end b)) div D"
  defines "b1 \<equiv> b\<lparr>m_blocks := butlast (m_blocks b) @
                     [write_block (m_end b) (take (D - m_end b) buf) (last (m_blocks b))]\<rparr>"
  shows "(Suc k \<le> length (m_all b) \<longrightarrow>
            (\<exists>nbF. addBack_loop D b [] (block_id (last (m_blocks b)), m_end b) buf left =
                 Inr (b1\<lparr>m_blockId := m_blockId b + Suc k, m_all := drop (Suc k) (m_all b)\<rparr>,
                      nbF, (block_id (last nbF), 0), drop (left + k * D) buf)
               \<and> length nbF = Suc k \<and> ids_from (m_blockId b) nbF
               \<and> list_all (\<lambda>x. length (data x) = D) nbF
               \<and> concat (map data (butlast nbF)) = take (k * D) (drop left buf)))
       \<and> (length (m_all b) < Suc k \<longrightarrow>
            (\<exists>nbt bt. addBack_loop D b [] (block_id (last (m_blocks b)), m_end b) buf left =
                 Inl (bad_alloc (Blocks_dtor nbt bt))
               \<and> length nbt = length (m_all b)
               \<and> bt = b1\<lparr>m_blockId := m_blockId b + length (m_all b), m_all := []\<rparr>
               \<and> list_all (\<lambda>x. length (data x) = D) nbt))"
proof -
  define chunk where "chunk = take left buf"
  from inv have D: "0 < D" and ne: "m_blocks b \<noteq> []"
    and ids: "ids_from (m_blockId b - length (m_blocks b)) (m_blocks b)"
    and pool: "list_all (\<lambda>c. length c = D) (m_all b)"
    by (simp_all add: buffer_inv_def)
  have m1: "memcpy (m_blocks b) (block_id (last (m_blocks b))) (m_end b) chunk = m_blocks b1"
    using ids ne by (simp add: memcpy_last b1_def chunk_def left_def)
  have b1eq: "b\<lparr>m_blocks := m_blocks b1\<rparr> = b1" by (simp add: b1_def)
  have m2: "memcpy [] (block_id (last (m_blocks b))) (m_end b) chunk = []"
    by (simp add: memcpy_def)
  note unf = addBack_loop.simps[of D b "[]" "(block_id (last (m_blocks b)), m_end b)" buf left]
  show ?thesis
  proof (cases "m_all b")
    case Nil
    have "addBack_loop D b [] (block_id (last (m_blocks b)), m_end b) buf left =
            Inl (bad_alloc (Blocks_dtor [] b1))"
      using Nil by (simp add: unf chunk_def [symmetric] m1 m2 b1eq newBlock_def allocate_def b1_def)
    moreover have "b1 = b1\<lparr>m_blockId := m_blockId b + length (m_all b), m_all := []\<rparr>"
      using Nil by (simp add: b1_def)
    ultimately have "\<exists>nbt bt. addBack_loop D b [] (block_id (last (m_blocks b)), m_end b) buf left =
                 Inl (bad_alloc (Blocks_dtor nbt bt))
               \<and> length nbt = length (m_all b)
               \<and> bt = b1\<lparr>m_blockId := m_blockId b + length (m_all b), m_all := []\<rparr>
               \<and> list_all (\<lambda>x. length (data x) = D) nbt"
      using Nil by (intro exI[of _ "[]"] exI[of _ b1]) simp
    then show ?thesis using Nil by simp
  next
    case (Cons c cs)
    define new where "new = \<lparr>block_id = m_blockId b, data = c\<rparr>"
    define b2 where "b2 = b1\<lparr>m_blockId := m_blockId b + 1, m_all := cs\<rparr>"
    define buf' where "buf' = drop left buf"
    have nbk: "newBlock b1 [] = Some ([new], b2)"
      using Cons by (simp add: newBlock_def allocate_def b2_def new_def b1_def)
    have cD: "length c = D" using pool Cons by simp
    have lb': "length buf' = length buf - (D - m_end b)" by (simp add: buf'_def left_def)
    show ?thesis
    proof (cases "D \<le> length buf'")
      case False
      then have k0: "k = 0" using lb' by (simp add: k_def)
      have "addBack_loop D b [] (block_id (last (m_blocks b)), m_end b) buf left =
              Inr (b2, [new], (block_id (last [new]), 0), buf')"
        using False nbk
        by (simp add: unf chunk_def [symmetric] m1 m2 b1eq buf'_def [symmetric])
      moreover have "b2 = b1\<lparr>m_blockId := m_blockId b + Suc k, m_all := drop (Suc k) (m_all b)\<rparr>"
        using k0 Cons by (simp add: b2_def)
      moreover have "buf' = drop (left + k * D) buf" using k0 by (simp add: buf'_def)
      ultimately have "\<exists>nbF. addBack_loop D b [] (block_id (last (m_blocks b)), m_end b) buf left =
                 Inr (b1\<lparr>m_blockId := m_blockId b + Suc k, m_all := drop (Suc k) (m_all b)\<rparr>,
                      nbF, (block_id (last nbF), 0), drop (left + k * D) buf)
               \<and> length nbF = Suc k \<and> ids_from (m_blockId b) nbF
               \<and> list_all (\<lambda>x. length (data x) = D) nbF
               \<and> concat (map data (butlast nbF)) = take (k * D) (drop left buf)"
        using k0 cD by (intro exI[of _ "[new]"]) (simp add: new_def)
      moreover have "\<not> length (m_all b) < Suc k" using k0 Cons by simp
      ultimately show ?thesis by blast
    next
      case True
      have kk: "k = length buf' div D" using lb' by (simp add: k_def)
      have rec: "addBack_loop D b [] (block_id (last (m_blocks b)), m_end b) buf left =
              addBack_loop D b2 [new] (block_id (last [new]), 0) buf' D"
        using True nbk
        by (simp add: unf chunk_def [symmetric] m1 m2 b1eq buf'_def [symmetric])
      have tl: "(length buf' div D \<le> length (m_all b2) \<longrightarrow>
            (\<exists>nb2. addBack_loop D b2 [new] (block_id (last [new]), 0) buf' D =
                 Inr (b2\<lparr>m_blockId := m_blockId b2 + length buf' div D,
                        m_all := drop (length buf' div D) (m_all b2)\<rparr>,
                      nb2, (block_id (last nb2), 0), drop (length buf' div D * D) buf')
               \<and> length nb2 = length [new] + length buf' div D \<and> ids_from (m_blockId b) nb2
               \<and> list_all (\<lambda>x. length (data x) = D) nb2
               \<and> concat (map data (butlast nb2)) =
                   concat (map data (butlast [new])) @ take (length buf' div D * D) buf'))
       \<and> (length (m_all b2) < length buf' div D \<longrightarrow>
            (\<exists>nbt bt. addBack_loop D b2 [new] (block_id (last [new]), 0) buf' D =
                 Inl (bad_alloc (Blocks_dtor nbt bt))
               \<and> length nbt = length [new] + length (m_all b2)
               \<and> bt = b2\<lparr>m_blockId := m_blockId b2 + length (m_all b2), m_all := []\<rparr>
               \<and> list_all (\<lambda>x. length (data x) = D) nbt))"
      proof (rule addBack_loop_tail)
        show "[new] \<noteq> []" by simp
        show "ids_from (m_blockId b) [new]" by (simp add: new_def)
        show "m_blockId b + length [new] = m_blockId b2" by (simp add: b2_def)
        show "\<forall>p\<in>block_id ` set (m_blocks b2). p < m_blockId b"
          using buffer_inv_main_ids[OF inv] ne
          by (auto simp: b2_def b1_def dest: in_set_butlastD)
        show "0 < D" by (rule D)
        show "D \<le> length buf'" by (rule True)
        show "list_all (\<lambda>x. length (data x) = D) [new]" using cD by (simp add: new_def)
        show "list_all (\<lambda>c. length c = D) (m_all b2)" using pool Cons by (simp add: b2_def)
      qed
      have st: "b2\<lparr>m_blockId := m_blockId b2 + length buf' div D,
                        m_all := drop (length buf' div D) (m_all b2)\<rparr> =
                b1\<lparr>m_blockId := m_blockId b + Suc k, m_all := drop (Suc k) (m_all b)\<rparr>"
        using Cons by (simp add: b2_def kk)
      have st2: "b2\<lparr>m_blockId := m_blockId b2 + length (m_all b2), m_all := []\<rparr> =
                 b1\<lparr>m_blockId := m_blockId b + length (m_all b), m_all := []\<rparr>"
        using Cons by (simp add: b2_def)
      have dr: "drop (length buf' div D * D) buf' = drop (left + k * D) buf"
        by (simp add: kk buf'_def add.commute)
      have lens: "length (m_all b2) = length cs" "length (m_all b) = Suc (length cs)"
        using Cons by (simp_all add: b2_def)
      show ?thesis
      proof (intro conjI impI)
        assume "Suc k \<le> length (m_all b)"
        then have "length buf' div D \<le> length (m_all b2)" using kk lens by simp
        with tl obtain nb2 where
          r: "addBack_loop D b2 [new] (block_id (last [new]), 0) buf' D =
                 Inr (b2\<lparr>m_blockId := m_blockId b2 + length buf' div D,
                        m_all := drop (length buf' div D) (m_all b2)\<rparr>,
                      nb2, (block_id (last nb2), 0), drop (length buf' div D * D) buf')"
          and f: "length nb2 = length [new] + length buf' div D" "ids_from (m_blockId b) nb2"
              "list_all (\<lambda>x. length (data x) = D) nb2"
              "concat (map data (butlast nb2)) =
                   concat (map data (butlast [new])) @ take (length buf' div D * D) buf'"
          by blast
        have "addBack_loop D b [] (block_id (last (m_blocks b)), m_end b) buf left =
                 Inr (b1\<lparr>m_blockId := m_blockId b + Suc k, m_all := drop (Suc k) (m_all b)\<rparr>,
                      nb2, (block_id (last nb2), 0), drop (left + k * D) buf)"
          using rec r st dr by simp
        moreover have "length nb2 = Suc k" using f(1) kk by simp
        moreover have "concat (map data (butlast nb2)) = take (k * D) (drop left buf)"
          using f(4) kk by (simp add: buf'_def)
        ultimately show "\<exists>nbF. addBack_loop D b [] (block_id (last (m_blocks b)), m_end b) buf left =
                 Inr (b1\<lparr>m_blockId := m_blockId b + Suc k, m_all := drop (Suc k) (m_all b)\<rparr>,
                      nbF, (block_id (last nbF), 0), drop (left + k * D) buf)
               \<and> length nbF = Suc k \<and> ids_from (m_blockId b) nbF
               \<and> list_all (\<lambda>x. length (data x) = D) nbF
               \<and> concat (map data (butlast nbF)) = take (k * D) (drop left buf)"
          using f(2,3) by blast
      next
        assume "length (m_all b) < Suc k"
        then have "length (m_all b2) < length buf' div D" using kk lens by simp
        with tl obtain nbt bt where
          r: "addBack_loop D b2 [new] (block_id (last [new]), 0) buf' D =
                 Inl (bad_alloc (Blocks_dtor nbt bt))"
          and f: "length nbt = length [new] + length (m_all b2)"
              "bt = b2\<lparr>m_blockId := m_blockId b2 + length (m_all b2), m_all := []\<rparr>"
              "list_all (\<lambda>x. length (data x) = D) nbt"
          by blast
        have "length nbt = length (m_all b)" using f(1) lens by simp
        moreover have "bt = b1\<lparr>m_blockId := m_blockId b + length (m_all b), m_all := []\<rparr>"
          using f(2) st2 by simp
        ultimately show "\<exists>nbt bt. addBack_loop D b [] (block_id (last (m_blocks b)), m_end b) buf left =
                 Inl (bad_alloc (Blocks_dtor nbt bt))
               \<and> length nbt = length (m_all b)
               \<and> bt = b1\<lparr>m_blockId := m_blockId b + length (m_all b), m_all := []\<rparr>
               \<and> list_all (\<lambda>x. length (data x) = D) nbt"
          using rec r f(3) by auto
      qed
    qed
  qed
qed

lemma ex0_reached: "Buffer [''....'', ''____'', ''----''] = Some ex0"
  by (simp add: Buffer_def newBlock_def allocate_def ex0_def)

lemma ex0_inv: "buffer_inv 4 ex0"
  by (simp add: buffer_inv_def ex0_def)

subsection \<open>\<^verbatim>\<open>addBack\<close> under a failing allocator\<close>

lemma addBack_bad_alloc:
  assumes inv: "buffer_inv D b" and r: "addBack D nd b buf = Inl (bad_alloc b')"
  shows "\<exists>nbt. b' = Blocks_dtor nbt
            (b\<lparr>m_blocks := butlast (m_blocks b) @
                 [write_block (m_end b) (take (D - m_end b) buf) (last (m_blocks b))],
               m_blockId := m_blockId b + length nbt, m_all := []\<rparr>)
          \<and> length nbt = length (m_all b) \<and> list_all (\<lambda>x. length (data x) = D) nbt
          \<and> D - m_end b \<le> length buf"
proof -
  from inv have ne: "m_blocks b \<noteq> []" by (simp add: buffer_inv_def)
  from r ne have le: "D - m_end b \<le> length buf"
    and lp: "addBack_loop D b [] (block_id (last (m_blocks b)), m_end b) buf (D - m_end b)
               = Inl (bad_alloc b')"
    by (auto simp: addBack_def split: if_splits sum.splits)
  define b1 where "b1 = b\<lparr>m_blocks := butlast (m_blocks b) @
                     [write_block (m_end b) (take (D - m_end b) buf) (last (m_blocks b))]\<rparr>"
  note first = addBack_loop_first[OF inv le, folded b1_def]
  have "\<not> Suc ((length buf - (D - m_end b)) div D) \<le> length (m_all b)"
    using first lp by auto
  with first lp obtain nbt where
    e: "b' = Blocks_dtor nbt (b1\<lparr>m_blockId := m_blockId b + length (m_all b), m_all := []\<rparr>)"
    and ln: "length nbt = length (m_all b)"
    and la: "list_all (\<lambda>x. length (data x) = D) nbt"
    by auto
  have "b' = Blocks_dtor nbt (b1\<lparr>m_blockId := m_blockId b + length nbt, m_all := []\<rparr>)"
    using e ln by simp
  then have "b' = Blocks_dtor nbt
            (b\<lparr>m_blocks := butlast (m_blocks b) @
                 [write_block (m_end b) (take (D - m_end b) buf) (last (m_blocks b))],
               m_blockId := m_blockId b + length nbt, m_all := []\<rparr>)"
    by (simp add: b1_def)
  with ln la le show ?thesis by blast
qed

text \<open>
  Claim C1.  When \<^verbatim>\<open>addBack\<close> throws because an allocation fails, the buffer that
  unwinding leaves has the \<^verbatim>\<open>begin()\<close> and \<^verbatim>\<open>end()\<close> positions, the blocks (their number
  and ids), the registry, the logical bytes and the invariant that it had before the
  call; and it is what \<^verbatim>\<open>~Blocks\<close> makes of the state at the throw, where the transient
  list held \<open>length nbt\<close> blocks and \<^verbatim>\<open>m_blockId\<close> was that much above its value before
  the call: the destructor takes the counter back by exactly this number.
\<close>

theorem addBack_strong_exception_safety:
  assumes "buffer_inv D b" and "addBack D nd b buf = Inl (bad_alloc b')"
  shows "begin_pos b' = begin_pos b \<and> end_pos b' = end_pos b
     \<and> length (m_blocks b') = length (m_blocks b)
     \<and> map block_id (m_blocks b') = map block_id (m_blocks b)
     \<and> m_iterators b' = m_iterators b
     \<and> content b' = content b
     \<and> buffer_inv D b'
     \<and> m_blockId b' = m_blockId b
     \<and> (\<exists>nbt bt. b' = Blocks_dtor nbt bt \<and> m_blockId bt = m_blockId b + length nbt
           \<and> m_blockId b' = m_blockId bt - length nbt)"
proof -
  define w where "w = write_block (m_end b) (take (D - m_end b) buf) (last (m_blocks b))"
  from addBack_bad_alloc[OF assms] obtain nbt where
    b': "b' = Blocks_dtor nbt (b\<lparr>m_blocks := butlast (m_blocks b) @ [w],
               m_blockId := m_blockId b + length nbt, m_all := []\<rparr>)"
    and ln: "length nbt = length (m_all b)"
    and la: "list_all (\<lambda>x. length (data x) = D) nbt"
    and le: "D - m_end b \<le> length buf"
    unfolding w_def by blast
  from assms(1) have D: "0 < D" and ne: "m_blocks b \<noteq> []" and e: "m_end b < D"
    and lens: "list_all (\<lambda>x. length (data x) = D) (m_blocks b)"
    and ids: "ids_from (m_blockId b - length (m_blocks b)) (m_blocks b)"
    by (simp_all add: buffer_inv_def)
  have eq: "b' = b\<lparr>m_blocks := butlast (m_blocks b) @ [w], m_all := rev (map data nbt)\<rparr>"
    unfolding b' by (simp add: Blocks_dtor_eq)
  have ll: "length (data (last (m_blocks b))) = D" using lens ne by (simp add: list_all_iff)
  have wid: "block_id w = block_id (last (m_blocks b))" by (simp add: w_def)
  have wlen: "length (data w) = D" using ll e le by (simp add: w_def write_block_def)
  have wtake: "take (m_end b) (data w) = take (m_end b) (data (last (m_blocks b)))"
    using ll e by (simp add: w_def write_block_def)
  have mp: "map block_id (butlast (m_blocks b) @ [w]) = map block_id (m_blocks b)"
  proof -
    have "map block_id (butlast (m_blocks b) @ [last (m_blocks b)]) = map block_id (m_blocks b)"
      using ne by simp
    then show ?thesis using wid by simp
  qed
  have hd': "block_id (hd (butlast (m_blocks b) @ [w])) = block_id (hd (m_blocks b))"
    using mp ne by (metis hd_map map_is_Nil_conv snoc_eq_iff_butlast)
  have c1: "begin_pos b' = begin_pos b" using hd' by (simp add: eq begin_pos_def)
  have c2: "end_pos b' = end_pos b" using wid by (simp add: eq end_pos_def)
  have c3: "length (m_blocks b') = length (m_blocks b)" using ne by (simp add: eq)
  have c4: "map block_id (m_blocks b') = map block_id (m_blocks b)" using mp by (simp add: eq)
  have c5: "m_iterators b' = m_iterators b" by (simp add: eq)
  have c6: "content b' = content b" using wtake by (simp add: eq content_def)
  have ids': "ids_from (m_blockId b - length (m_blocks b)) (butlast (m_blocks b) @ [w])"
    using ids ne wid by (rule ids_from_butlast_snoc)
  have lens': "list_all (\<lambda>x. length (data x) = D) (butlast (m_blocks b) @ [w])"
    using lens wlen by (auto simp: list_all_iff dest: in_set_butlastD)
  have pool': "list_all (\<lambda>c. length c = D) (rev (map data nbt))"
    using la by (simp add: list_all_iff)
  have c7: "buffer_inv D b'"
    using assms(1) ids' lens' pool' ne unfolding eq buffer_inv_def by simp
  have c8: "m_blockId b' = m_blockId b" by (simp add: eq)
  have c9: "\<exists>nbt bt. b' = Blocks_dtor nbt bt \<and> m_blockId bt = m_blockId b + length nbt
           \<and> m_blockId b' = m_blockId bt - length nbt"
    using b' c8 by (intro exI[of _ nbt] exI[of _ "b\<lparr>m_blocks := butlast (m_blocks b) @ [w],
               m_blockId := m_blockId b + length nbt, m_all := []\<rparr>"]) simp
  from c1 c2 c3 c4 c5 c6 c7 c8 c9 show ?thesis by blast
qed

theorem addBack_strong_exception_safety_witness:
  "buffer_inv 4 ex0
   \<and> addBack 4 False ex0 ''abcdefghijkl'' =
       Inl (bad_alloc \<lparr>m_blocks = [\<lparr>block_id = 0, data = ''abcd''\<rparr>], m_iterators = [],
                       m_blockId = 1, m_begin = 0, m_end = 0, m_all = [''ijkl'', ''efgh'']\<rparr>)
   \<and> content \<lparr>m_blocks = [\<lparr>block_id = 0, data = ''abcd''\<rparr>], m_iterators = [],
                       m_blockId = 1, m_begin = 0, m_end = 0, m_all = [''ijkl'', ''efgh'']\<rparr>
       = content ex0"
proof -
  have t: "addBack 4 False ex0 ''abcdefghijkl'' =
       Inl (bad_alloc \<lparr>m_blocks = [\<lparr>block_id = 0, data = ''abcd''\<rparr>], m_iterators = [],
                       m_blockId = 1, m_begin = 0, m_end = 0, m_all = [''ijkl'', ''efgh'']\<rparr>)"
    by (simp add: addBack_def addBack_loop.simps newBlock_def allocate_def deallocate_def
        memcpy_def write_block_def ex0_def Let_def)
  from addBack_strong_exception_safety[OF ex0_inv t] ex0_inv t show ?thesis by blast
qed

subsection \<open>Reading bytes\<close>

lemma get_loop_concat:
  "list_all (\<lambda>x. length (data x) = D) blks \<Longrightarrow> pos \<le> D \<Longrightarrow> sz + pos \<le> length blks * D
   \<Longrightarrow> get_loop D blks pos sz (D - pos) = Inr (take sz (drop pos (concat (map data blks))))"
proof (induction blks arbitrary: pos sz)
  case Nil
  then show ?case by simp
next
  case (Cons x rest)
  have lx: "length (data x) = D" using Cons.prems(1) by simp
  show ?case
  proof (cases "sz \<le> D - pos")
    case True
    then show ?thesis using lx by (simp add: min_def)
  next
    case False
    then have m: "min sz (D - pos) = D - pos" "sz \<noteq> 0" "sz - (D - pos) \<noteq> 0" by simp_all
    have "get_loop D rest 0 (sz - (D - pos)) (D - 0) =
            Inr (take (sz - (D - pos)) (drop 0 (concat (map data rest))))"
      using Cons.prems False by (intro Cons.IH) auto
    then have ih: "get_loop D rest 0 (sz - (D - pos)) D =
            Inr (take (sz - (D - pos)) (concat (map data rest)))" by simp
    have "get_loop D (x # rest) pos sz (D - pos) =
            Inr (take (D - pos) (drop pos (data x)) @ take (sz - (D - pos)) (concat (map data rest)))"
      by (subst get_loop.simps) (simp add: m ih del: get_loop.simps)
    then show ?thesis using lx Cons.prems(2) False by simp
  qed
qed

lemma concat_drop_blocks:
  "list_all (\<lambda>x. length (data x) = D) bs \<Longrightarrow>
   concat (map data (drop i bs)) = drop (i * D) (concat (map data bs))"
proof (induction bs arbitrary: i)
  case Nil then show ?case by simp
next
  case (Cons x xs)
  then show ?case by (cases i) simp_all
qed

lemma concat_length_blocks:
  "list_all (\<lambda>x. length (data x) = D) bs \<Longrightarrow> length (concat (map data bs)) = length bs * D"
  by (induction bs) simp_all

lemma get_buf_at:
  assumes inv: "buffer_inv D b" and i: "i < length (m_blocks b)"
    and blk: "m_block itr = m_blockId b - length (m_blocks b) + i"
    and pos: "m_position itr \<le> D"
    and sz: "sz + m_position itr + i * D \<le> length (m_blocks b) * D"
  shows "get_buf D b itr sz =
           Inr (take sz (drop (i * D + m_position itr) (concat (map data (m_blocks b)))), b)"
proof -
  from inv have ids: "ids_from (m_blockId b - length (m_blocks b)) (m_blocks b)"
    and lens: "list_all (\<lambda>x. length (data x) = D) (m_blocks b)"
    by (simp_all add: buffer_inv_def)
  have fr: "blocks_from (m_blocks b) (m_block itr) = drop i (m_blocks b)"
    using blocks_from_drop[OF ids, of "m_block itr"] i blk by simp
  have l': "list_all (\<lambda>x. length (data x) = D) (drop i (m_blocks b))"
    using lens by (auto simp: list_all_iff dest: in_set_dropD)
  have "sz + m_position itr \<le> (length (m_blocks b) - i) * D"
    using sz i by (simp add: diff_mult_distrib)
  then have "get_loop D (drop i (m_blocks b)) (m_position itr) sz (D - m_position itr) =
          Inr (take sz (drop (m_position itr) (concat (map data (drop i (m_blocks b))))))"
    using l' pos by (intro get_loop_concat) simp_all
  then show ?thesis
    by (simp add: get_buf_def fr concat_drop_blocks[OF lens] add.commute)
qed

subsection \<open>\<^verbatim>\<open>addBack\<close> when the allocations succeed\<close>

lemma content_filled: "content b = drop (m_begin b) (filled b)"
  by (simp add: content_def filled_def)

lemma filled_length:
  assumes "buffer_inv D b"
  shows "length (filled b) = (length (m_blocks b) - 1) * D + m_end b"
proof -
  from assms have ne: "m_blocks b \<noteq> []" and e: "m_end b < D"
    and lens: "list_all (\<lambda>x. length (data x) = D) (m_blocks b)"
    by (simp_all add: buffer_inv_def)
  have "list_all (\<lambda>x. length (data x) = D) (butlast (m_blocks b))"
    using lens by (auto simp: list_all_iff dest: in_set_butlastD)
  from concat_length_blocks[OF this] have "length (concat (map data (butlast (m_blocks b)))) =
      (length (m_blocks b) - 1) * D" by simp
  moreover have "length (data (last (m_blocks b))) = D" using lens ne by (simp add: list_all_iff)
  ultimately show ?thesis using e by (simp add: filled_def)
qed

lemma all_data_filled:
  assumes "buffer_inv D b"
  shows "concat (map data (m_blocks b)) = filled b @ drop (m_end b) (data (last (m_blocks b)))"
proof -
  from assms have ne: "m_blocks b \<noteq> []" by (simp add: buffer_inv_def)
  have "concat (map data (butlast (m_blocks b) @ [last (m_blocks b)])) =
          filled b @ drop (m_end b) (data (last (m_blocks b)))"
    unfolding filled_def by simp
  then show ?thesis using ne by simp
qed

lemma addBack_fast:
  assumes inv: "buffer_inv D b" and lt: "length buf < D - m_end b"
    and r: "addBack D nd b buf = Inr b'"
  shows "buffer_inv D b' \<and> filled b' = filled b @ buf \<and> m_begin b' = m_begin b
       \<and> m_iterators b' = m_iterators b \<and> length (m_blocks b') = length (m_blocks b)
       \<and> m_blockId b' = m_blockId b \<and> m_end b' = m_end b + length buf"
proof -
  define w where "w = write_block (m_end b) buf (last (m_blocks b))"
  from inv have D: "0 < D" and ne: "m_blocks b \<noteq> []" and e: "m_end b < D"
    and lens: "list_all (\<lambda>x. length (data x) = D) (m_blocks b)"
    and ids: "ids_from (m_blockId b - length (m_blocks b)) (m_blocks b)"
    by (simp_all add: buffer_inv_def)
  have mc: "memcpy (m_blocks b) (block_id (last (m_blocks b))) (m_end b) buf =
              butlast (m_blocks b) @ [w]"
    using ids ne by (simp add: memcpy_last w_def)
  from r ne lt have eq: "b' = b\<lparr>m_blocks := butlast (m_blocks b) @ [w],
                                 m_end := m_end b + length buf\<rparr>"
    by (auto simp: addBack_def mc split: if_splits)
  have ll: "length (data (last (m_blocks b))) = D" using lens ne by (simp add: list_all_iff)
  have wlen: "length (data w) = D" using ll lt by (simp add: w_def write_block_def)
  have wtake: "take (m_end b + length buf) (data w) = take (m_end b) (data (last (m_blocks b))) @ buf"
    using ll lt by (simp add: w_def write_block_def)
  have ids': "ids_from (m_blockId b - length (m_blocks b)) (butlast (m_blocks b) @ [w])"
    using ids ne by (rule ids_from_butlast_snoc) (simp add: w_def)
  have lens': "list_all (\<lambda>x. length (data x) = D) (butlast (m_blocks b) @ [w])"
    using lens wlen by (auto simp: list_all_iff dest: in_set_butlastD)
  have c1: "buffer_inv D b'"
    using inv ids' lens' ne lt unfolding eq buffer_inv_def by auto
  have c2: "filled b' = filled b @ buf" using wtake by (simp add: eq filled_def)
  from c1 c2 ne show ?thesis by (simp add: eq)
qed

lemma addBack_slow:
  assumes inv: "buffer_inv D b" and le: "D - m_end b \<le> length buf"
    and r: "addBack D nd b buf = Inr b'"
  defines "k \<equiv> (length buf - (D - m_end b)) div D"
  shows "buffer_inv D b' \<and> filled b' = filled b @ buf \<and> m_begin b' = m_begin b
       \<and> m_iterators b' = m_iterators b \<and> length (m_blocks b') = length (m_blocks b) + Suc k
       \<and> m_blockId b' = m_blockId b + Suc k
       \<and> m_end b' = (length buf - (D - m_end b)) mod D"
proof -
  define left where "left = D - m_end b"
  define w where "w = write_block (m_end b) (take left buf) (last (m_blocks b))"
  define b1 where "b1 = b\<lparr>m_blocks := butlast (m_blocks b) @ [w]\<rparr>"
  define bufF where "bufF = drop (left + k * D) buf"
  from inv have D: "0 < D" and ne: "m_blocks b \<noteq> []" and e: "m_end b < D"
    and lens: "list_all (\<lambda>x. length (data x) = D) (m_blocks b)"
    and ids: "ids_from (m_blockId b - length (m_blocks b)) (m_blocks b)"
    and nid: "length (m_blocks b) \<le> m_blockId b"
    and pool: "list_all (\<lambda>c. length c = D) (m_all b)"
    by (simp_all add: buffer_inv_def)
  from r ne le obtain bl nbl nel bfl where
    lp: "addBack_loop D b [] (block_id (last (m_blocks b)), m_end b) buf (D - m_end b)
           = Inr (bl, nbl, nel, bfl)"
    and b'0: "b' = bl\<lparr>m_blocks := m_blocks bl @ memcpy nbl (fst nel) (snd nel) bfl,
                       m_end := snd nel + length bfl\<rparr>"
    by (auto simp: addBack_def split: if_splits sum.splits)
  note first = addBack_loop_first[OF inv le, folded k_def left_def, folded w_def, folded b1_def]
  have "Suc k \<le> length (m_all b)" using first lp by (auto simp: left_def)
  with first lp obtain nbF where
    bl: "bl = b1\<lparr>m_blockId := m_blockId b + Suc k, m_all := drop (Suc k) (m_all b)\<rparr>"
    and nbl: "nbl = nbF" and nel: "nel = (block_id (last nbF), 0)"
    and bfl: "bfl = bufF"
    and f: "length nbF = Suc k" "ids_from (m_blockId b) nbF"
        "list_all (\<lambda>x. length (data x) = D) nbF"
        "concat (map data (butlast nbF)) = take (k * D) (drop left buf)"
    unfolding bufF_def left_def by auto
  define wF where "wF = write_block 0 bufF (last nbF)"
  have nbne: "nbF \<noteq> []" using f(1) by auto
  have mc: "memcpy nbF (block_id (last nbF)) 0 bufF = butlast nbF @ [wF]"
    using f(2) nbne by (simp add: memcpy_last wF_def)
  have eq: "b' = b\<lparr>m_blocks := butlast (m_blocks b) @ [w] @ butlast nbF @ [wF],
                   m_blockId := m_blockId b + Suc k, m_all := drop (Suc k) (m_all b),
                   m_end := length bufF\<rparr>"
    unfolding b'0 bl nbl nel bfl by (simp add: mc b1_def)
  have lF: "length bufF = (length buf - left) mod D"
  proof -
    have "length buf - left = k * D + (length buf - left) mod D"
      by (simp add: k_def left_def)
    then show ?thesis by (simp add: bufF_def)
  qed
  have lFD: "length bufF < D" using lF D by simp
  have ll: "length (data (last (m_blocks b))) = D" using lens ne by (simp add: list_all_iff)
  have lr: "m_end b + left = D" using e by (simp add: left_def)
  have tl: "length (take left buf) = left" using le by (simp add: left_def)
  have wdata: "data w = take (m_end b) (data (last (m_blocks b))) @ take left buf"
    using ll lr tl by (simp add: w_def write_block_def)
  have wlen: "length (data w) = D" using wdata ll e lr tl by simp
  have lFl: "length (data (last nbF)) = D" using f(3) nbne by (simp add: list_all_iff)
  have wFlen: "length (data wF) = D" using lFl lFD by (simp add: wF_def write_block_def)
  have wFtake: "take (length bufF) (data wF) = bufF" by (simp add: wF_def write_block_def)
  have ids1: "ids_from (m_blockId b - length (m_blocks b)) (butlast (m_blocks b) @ [w])"
    using ids ne by (rule ids_from_butlast_snoc) (simp add: w_def)
  have ids2: "ids_from (m_blockId b) (butlast nbF @ [wF])"
    using f(2) nbne by (rule ids_from_butlast_snoc) (simp add: wF_def)
  have l1: "length (butlast (m_blocks b) @ [w]) = length (m_blocks b)" using ne by simp
  have ids': "ids_from (m_blockId b - length (m_blocks b))
                ((butlast (m_blocks b) @ [w]) @ (butlast nbF @ [wF]))"
    unfolding ids_from_append[of _ "butlast (m_blocks b) @ [w]"] l1
    using ids1 ids2 nid by simp
  have lens': "list_all (\<lambda>x. length (data x) = D)
                ((butlast (m_blocks b) @ [w]) @ (butlast nbF @ [wF]))"
    using lens f(3) wlen wFlen by (auto simp: list_all_iff dest: in_set_butlastD)
  have pool': "list_all (\<lambda>c. length c = D) (drop (Suc k) (m_all b))"
    using pool by (auto simp: list_all_iff dest: in_set_dropD)
  have len': "length (m_blocks b') = length (m_blocks b) + Suc k"
    using ne nbne f(1) by (simp add: eq)
  have c1: "buffer_inv D b'"
    unfolding buffer_inv_def
  proof (intro conjI)
    show "0 < D" by (rule D)
    show "m_blocks b' \<noteq> []" by (simp add: eq)
    show "list_all (\<lambda>x. length (data x) = D) (m_blocks b')" using lens' by (simp add: eq)
    show "length (m_blocks b') \<le> m_blockId b'" using len' nid by (simp add: eq)
    have "m_blockId b' - length (m_blocks b') = m_blockId b - length (m_blocks b)"
      using len' nid by (simp add: eq)
    then show "ids_from (m_blockId b' - length (m_blocks b')) (m_blocks b')"
      using ids' by (simp add: eq)
    show "m_begin b' \<le> D" using inv by (simp add: eq buffer_inv_def)
    show "m_end b' < D" using lFD by (simp add: eq)
    show "length (m_blocks b') = 1 \<longrightarrow> m_begin b' \<le> m_end b'" using len' ne by auto
    show "list_all (\<lambda>c. length c = D) (m_all b')" using pool' by (simp add: eq)
  qed
  have bl': "concat (map data (butlast (m_blocks b'))) =
               concat (map data (butlast (m_blocks b))) @ data w
                 @ concat (map data (butlast nbF))"
    by (simp add: eq butlast_append)
  have "filled b' = concat (map data (butlast (m_blocks b))) @ data w
                     @ concat (map data (butlast nbF)) @ bufF"
    unfolding filled_def bl' using wFtake by (simp add: eq)
  also have "\<dots> = filled b @ (take left buf @ take (k * D) (drop left buf) @ bufF)"
    by (simp add: wdata f(4) filled_def)
  also have "take left buf @ take (k * D) (drop left buf) @ bufF = buf"
    by (simp add: bufF_def add.commute[of left] drop_drop [symmetric] del: drop_drop)
  finally have c2: "filled b' = filled b @ buf" .
  from c1 c2 len' lF show ?thesis by (simp add: eq left_def)
qed

lemma addBack_returns:
  assumes inv: "buffer_inv D b" and nz: "nd \<or> buf \<noteq> []"
    and pool: "length buf < D - m_end b
               \<or> Suc ((length buf - (D - m_end b)) div D) \<le> length (m_all b)"
  shows "\<exists>b'. addBack D nd b buf = Inr b'"
proof (cases "length buf < D - m_end b")
  case True
  with inv nz show ?thesis by (auto simp: addBack_def buffer_inv_def)
next
  case False
  then have le: "D - m_end b \<le> length buf" by simp
  from False pool have "Suc ((length buf - (D - m_end b)) div D) \<le> length (m_all b)" by simp
  with addBack_loop_first[OF inv le] obtain r where
    "addBack_loop D b [] (block_id (last (m_blocks b)), m_end b) buf (D - m_end b) = Inr r"
    by blast
  with inv nz False show ?thesis
    by (cases r) (auto simp: addBack_def buffer_inv_def)
qed

lemma addBack_Inr:
  assumes "buffer_inv D b" and "addBack D nd b buf = Inr b'"
  shows "buffer_inv D b' \<and> filled b' = filled b @ buf \<and> m_begin b' = m_begin b
       \<and> m_iterators b' = m_iterators b \<and> length (m_blocks b) \<le> length (m_blocks b')
       \<and> m_blockId b' - length (m_blocks b') = m_blockId b - length (m_blocks b)"
proof (cases "length buf < D - m_end b")
  case True
  from addBack_fast[OF assms(1) True assms(2)] show ?thesis by simp
next
  case False
  then have le: "D - m_end b \<le> length buf" by simp
  from assms(1) have "length (m_blocks b) \<le> m_blockId b" by (simp add: buffer_inv_def)
  with addBack_slow[OF assms(1) le assms(2)] show ?thesis by simp
qed

lemma m_begin_le_filled:
  assumes "buffer_inv D b"
  shows "m_begin b \<le> length (filled b)"
proof -
  from assms have bg: "m_begin b \<le> D" and l0: "0 < length (m_blocks b)"
    and one: "length (m_blocks b) = 1 \<longrightarrow> m_begin b \<le> m_end b"
    by (simp_all add: buffer_inv_def)
  note fl = filled_length[OF assms]
  show ?thesis
  proof (cases "length (m_blocks b) = 1")
    case True
    with one fl show ?thesis by simp
  next
    case False
    with l0 have "length (m_blocks b) - 1 \<noteq> 0" by linarith
    then obtain m where "length (m_blocks b) - 1 = Suc m"
      using not0_implies_Suc by blast
    then have "length (filled b) = D + m * D + m_end b" using fl by simp
    with bg show ?thesis by linarith
  qed
qed

text \<open>
  Claim C5.  For a non-empty byte sequence \<open>s\<close> and a pool that holds the blocks the
  append needs, \<^verbatim>\<open>addBack(s)\<close> returns, and \<^verbatim>\<open>get\<close> of \<open>|s|\<close> bytes at the position where the
  buffer ended before the call, which is where the appended bytes start, yields \<open>s\<close>;
  the logical bytes are the former ones followed by \<open>s\<close>.  On a buffer that was empty,
  a fresh one in particular, that position is \<^verbatim>\<open>begin()\<close>, so
  \<^verbatim>\<open>get(begin(), out, |s|)\<close> yields \<open>s\<close>, however many blocks the append spans.
\<close>

theorem addBack_get_roundtrip:
  assumes "buffer_inv D b" and "s \<noteq> []"
    and "length s < D - m_end b
         \<or> Suc ((length s - (D - m_end b)) div D) \<le> length (m_all b)"
  shows "\<exists>b'. addBack D nd b s = Inr b'
          \<and> get_buf D b' (end_pos b) (length s) = Inr (s, b')
          \<and> content b' = content b @ s
          \<and> (empty_buf b \<longrightarrow> get_buf D b' (begin_pos b') (length s) = Inr (s, b'))"
proof -
  from addBack_returns[OF assms(1) _ assms(3), of nd] assms(2)
  obtain b' where r: "addBack D nd b s = Inr b'" by blast
  define n where "n = length (m_blocks b)"
  define n' where "n' = length (m_blocks b')"
  define h where "h = m_blockId b - n"
  from addBack_Inr[OF assms(1) r] have inv': "buffer_inv D b'"
    and fl: "filled b' = filled b @ s" and bg: "m_begin b' = m_begin b"
    and nn: "n \<le> n'" and hh: "m_blockId b' - n' = h"
    unfolding n_def n'_def h_def by blast+
  from assms(1) have ne: "m_blocks b \<noteq> []" and e: "m_end b < D" and nid: "n \<le> m_blockId b"
    by (simp_all add: buffer_inv_def n_def)
  from inv' have e': "m_end b' < D" and ne': "m_blocks b' \<noteq> []"
    by (simp_all add: buffer_inv_def)
  have n0: "0 < n" using ne by (simp add: n_def)
  have n'0: "0 < n'" using ne' by (simp add: n'_def)
  have lf: "length (filled b) = (n - 1) * D + m_end b"
    using filled_length[OF assms(1)] by (simp add: n_def)
  have lf': "length (filled b') = (n' - 1) * D + m_end b'"
    using filled_length[OF inv'] by (simp add: n'_def)
  have "(n' - 1) * D + D = n' * D" using n'0 by (simp add: mult_eq_if)
  with lf' e' have "length (filled b') \<le> n' * D" by simp
  then have bound: "length s + m_end b + (n - 1) * D \<le> n' * D" using fl lf by simp
  have blk: "m_block (end_pos b) = m_blockId b' - length (m_blocks b') + (n - 1)"
    using end_pos_block[OF assms(1)] hh nid n0 by (simp add: h_def n'_def)
  have "get_buf D b' (end_pos b) (length s) =
          Inr (take (length s)
                 (drop ((n - 1) * D + m_position (end_pos b)) (concat (map data (m_blocks b')))),
               b')"
  proof (rule get_buf_at[OF inv' _ blk])
    show "n - 1 < length (m_blocks b')" using nn n0 by (simp add: n'_def)
    show "m_position (end_pos b) \<le> D" using e by (simp add: end_pos_def)
    show "length s + m_position (end_pos b) + (n - 1) * D \<le> length (m_blocks b') * D"
      using bound by (simp add: end_pos_def n'_def)
  qed
  moreover have "(n - 1) * D + m_position (end_pos b) = length (filled b)"
    using lf by (simp add: end_pos_def)
  moreover have "concat (map data (m_blocks b')) =
                   filled b @ s @ drop (m_end b') (data (last (m_blocks b')))"
    using all_data_filled[OF inv'] fl by simp
  ultimately have g: "get_buf D b' (end_pos b) (length s) = Inr (s, b')" by simp
  have c: "content b' = content b @ s"
    using m_begin_le_filled[OF assms(1)] by (simp add: content_filled fl bg)
  have emp: "get_buf D b' (begin_pos b') (length s) = Inr (s, b')" if "empty_buf b"
  proof -
    from that have i: "m_block (begin_pos b) = m_block (end_pos b)" and p: "m_begin b = m_end b"
      by (simp_all add: empty_buf_def iter_eq_def begin_pos_def end_pos_def)
    have "m_block (begin_pos b') = h"
      using begin_pos_block[OF inv'] hh by (simp add: n'_def)
    moreover have "m_block (begin_pos b) = h"
      using begin_pos_block[OF assms(1)] by (simp add: h_def n_def)
    ultimately have "m_block (begin_pos b') = m_block (end_pos b)" using i by simp
    moreover have "m_position (begin_pos b') = m_position (end_pos b)"
      using p bg by (simp add: begin_pos_def end_pos_def)
    ultimately have "begin_pos b' = end_pos b" by simp
    with g show ?thesis by simp
  qed
  from r g c emp show ?thesis by blast
qed

theorem addBack_get_roundtrip_witness:
  "buffer_inv 4 ex0 \<and> ''abcdefghi'' \<noteq> [] \<and> empty_buf ex0
   \<and> Suc ((length ''abcdefghi'' - (4 - m_end ex0)) div 4) \<le> length (m_all ex0)
   \<and> addBack 4 False ex0 ''abcdefghi'' = Inr ex3
   \<and> get_buf 4 ex3 (begin_pos ex3) (length ''abcdefghi'') = Inr (''abcdefghi'', ex3)
   \<and> content ex3 = ''abcdefghi''"
proof -
  have h: "''abcdefghi'' \<noteq> []"
    "length ''abcdefghi'' < 4 - m_end ex0
       \<or> Suc ((length ''abcdefghi'' - (4 - m_end ex0)) div 4) \<le> length (m_all ex0)"
    by (simp_all add: ex0_def)
  have a: "addBack 4 False ex0 ''abcdefghi'' = Inr ex3"
    by (simp add: addBack_def addBack_loop.simps newBlock_def allocate_def memcpy_def
        write_block_def ex0_def ex3_def Let_def)
  have e: "empty_buf ex0" "content ex0 = []"
    by (simp_all add: empty_buf_def iter_eq_def begin_pos_def end_pos_def content_def ex0_def)
  from addBack_get_roundtrip[OF ex0_inv h, of False] a e
  have "get_buf 4 ex3 (begin_pos ex3) (length ''abcdefghi'') = Inr (''abcdefghi'', ex3)"
    "content ex3 = ''abcdefghi''"
    by auto
  moreover have "Suc ((length ''abcdefghi'' - (4 - m_end ex0)) div 4) \<le> length (m_all ex0)"
    by (simp add: ex0_def)
  ultimately show ?thesis using ex0_inv a e by blast
qed

subsection \<open>What the loops leave alone\<close>

declare dropFront_loop.simps [simp del]
declare insert_loop.simps [simp del]
declare release_loop.simps [simp del]
declare release_locate.simps [simp del]
declare set_loop.simps [simp del]
declare get_loop.simps [simp del]

lemma memcpy_Nil_iff [simp]: "memcpy bs p off src = [] \<longleftrightarrow> bs = []"
  by (simp add: memcpy_def)

lemma Blocks_dtor_frame:
  "m_blocks (Blocks_dtor xs b) = m_blocks b \<and> m_end (Blocks_dtor xs b) = m_end b
   \<and> m_begin (Blocks_dtor xs b) = m_begin b \<and> m_iterators (Blocks_dtor xs b) = m_iterators b"
  by (simp add: Blocks_dtor_eq)

lemma addBack_loop_frame:
  "(addBack_loop D b nb ne buf left_in_block = Inr (b2, nb2, ne2, buf2)
      \<longrightarrow> length (m_blocks b2) = length (m_blocks b) \<and> m_end b2 = m_end b
          \<and> nb2 \<noteq> [] \<and> snd ne2 = 0 \<and> length buf2 < D)
   \<and> (addBack_loop D b nb ne buf left_in_block = Inl e
      \<longrightarrow> (\<exists>b3. e = bad_alloc b3 \<and> length (m_blocks b3) = length (m_blocks b)
                \<and> m_end b3 = m_end b))"
proof (induction "length (m_all b)" arbitrary: b nb ne buf left_in_block)
  case 0
  then show ?case
    by (auto simp: addBack_loop.simps[of D b nb ne buf left_in_block] newBlock_def allocate_def
        Blocks_dtor_frame)
next
  case (Suc n)
  then obtain c cs where p: "m_all b = c # cs" by (cases "m_all b") auto
  define b1 where "b1 = b\<lparr>m_blocks :=
      memcpy (m_blocks b) (fst ne) (snd ne) (take left_in_block buf)\<rparr>"
  define nb2' where "nb2' = memcpy nb (fst ne) (snd ne) (take left_in_block buf)
                       @ [\<lparr>block_id = m_blockId b, data = c\<rparr>]"
  define b2' where "b2' = b1\<lparr>m_blockId := m_blockId b + 1, m_all := cs\<rparr>"
  have nbk: "newBlock b1 (memcpy nb (fst ne) (snd ne) (take left_in_block buf)) = Some (nb2', b2')"
    using p by (simp add: newBlock_def allocate_def b1_def nb2'_def b2'_def)
  note unf = addBack_loop.simps[of D b nb ne buf left_in_block, folded b1_def]
  show ?case
  proof (cases "D \<le> length (drop left_in_block buf)")
    case False
    then show ?thesis
      using nbk by (auto simp: unf Let_def nb2'_def b2'_def b1_def)
  next
    case True
    have rec: "addBack_loop D b nb ne buf left_in_block =
                 addBack_loop D b2' nb2' (block_id (last nb2'), 0) (drop left_in_block buf) D"
      using True nbk by (simp add: unf Let_def)
    have "n = length (m_all b2')" using Suc(2) p by (simp add: b2'_def)
    from Suc(1)[OF this, of nb2' "(block_id (last nb2'), 0)" "drop left_in_block buf" D]
    show ?thesis unfolding rec by (simp add: b2'_def b1_def)
  qed
qed

lemma advance_loop_frame:
  "(advance_loop D b nb sz left_in_block = Inr (b2, nb2, sz2)
      \<longrightarrow> m_blocks b2 = m_blocks b \<and> nb2 \<noteq> [] \<and> sz2 < D)
   \<and> (advance_loop D b nb sz left_in_block = Inl e
      \<longrightarrow> (\<exists>b3. e = bad_alloc b3 \<and> m_blocks b3 = m_blocks b \<and> m_end b3 = m_end b))"
proof (induction "length (m_all b)" arbitrary: b nb sz left_in_block)
  case 0
  then show ?case
    by (auto simp: advance_loop.simps[of D b nb sz left_in_block] newBlock_def allocate_def
        Blocks_dtor_frame)
next
  case (Suc n)
  then obtain c cs where p: "m_all b = c # cs" by (cases "m_all b") auto
  define nb2' where "nb2' = nb @ [\<lparr>block_id = m_blockId b, data = c\<rparr>]"
  define b2' where "b2' = b\<lparr>m_blockId := m_blockId b + 1, m_all := cs\<rparr>"
  have nbk: "newBlock b nb = Some (nb2', b2')"
    using p by (simp add: newBlock_def allocate_def nb2'_def b2'_def)
  note unf = advance_loop.simps[of D b nb sz left_in_block]
  show ?case
  proof (cases "D \<le> sz - left_in_block")
    case False
    then show ?thesis using nbk by (auto simp: unf nb2'_def b2'_def)
  next
    case True
    have rec: "advance_loop D b nb sz left_in_block =
                 advance_loop D b2' nb2' (sz - left_in_block) D"
      using True nbk by (simp add: unf)
    have "n = length (m_all b2')" using Suc(2) p by (simp add: b2'_def)
    from Suc(1)[OF this, of nb2' "sz - left_in_block" D]
    show ?thesis unfolding rec by (simp add: b2'_def)
  qed
qed

lemma addBack_m_end:
  assumes "0 < D" "m_end b < D" "m_blocks b \<noteq> []"
  shows "(addBack D nd b buf = Inr b' \<longrightarrow> m_end b' < D \<and> m_blocks b' \<noteq> [])
       \<and> (addBack D nd b buf = Inl (bad_alloc b') \<longrightarrow> m_end b' < D \<and> m_blocks b' \<noteq> [])"
proof (cases "D - m_end b > length buf")
  case True
  with assms show ?thesis by (auto simp: addBack_def)
next
  case False
  with assms(2) have nz: "length buf \<noteq> 0" by (cases buf) auto
  define lp where "lp = addBack_loop D b [] (block_id (last (m_blocks b)), m_end b) buf (D - m_end b)"
  have eq: "addBack D nd b buf =
      (case lp of Inl e \<Rightarrow> Inl e
       | Inr (b', new_blocks, new_end, buf') \<Rightarrow>
           Inr (b'\<lparr>m_blocks := m_blocks b' @ memcpy new_blocks (fst new_end) (snd new_end) buf',
                   m_end := snd new_end + length buf'\<rparr>))"
    using False nz assms(3) by (simp add: addBack_def lp_def)
  show ?thesis
  proof (cases lp)
    case (Inl e)
    from addBack_loop_frame[of D b "[]" _ buf "D - m_end b" _ _ _ _ e] Inl
    obtain b3 where "e = bad_alloc b3" "length (m_blocks b3) = length (m_blocks b)"
      "m_end b3 = m_end b" unfolding lp_def by blast
    with Inl assms show ?thesis by (auto simp: eq)
  next
    case (Inr r)
    obtain b2 nb2 ne2 buf2 where r: "r = (b2, nb2, ne2, buf2)" by (cases r) auto
    from addBack_loop_frame[of D b "[]" _ buf "D - m_end b" b2 nb2 ne2 buf2] Inr r
    have "nb2 \<noteq> []" "snd ne2 = 0" "length buf2 < D" unfolding lp_def by blast+
    with Inr r show ?thesis by (auto simp: eq)
  qed
qed

lemma addBack_Advance_m_end:
  assumes "0 < D" "m_end b < D" "m_blocks b \<noteq> []"
  shows "(addBack_Advance D nd b sz = Inr b' \<longrightarrow> m_end b' < D \<and> m_blocks b' \<noteq> [])
       \<and> (addBack_Advance D nd b sz = Inl (bad_alloc b') \<longrightarrow> m_end b' < D \<and> m_blocks b' \<noteq> [])"
proof (cases "D - m_end b > sz")
  case True
  with assms show ?thesis by (auto simp: addBack_Advance_def)
next
  case False
  with assms(2) have nz: "sz \<noteq> 0" by simp
  define lp where "lp = advance_loop D b [] sz (D - m_end b)"
  have eq: "addBack_Advance D nd b sz =
      (case lp of Inl e \<Rightarrow> Inl e
       | Inr (b', new_blocks, sz') \<Rightarrow>
           Inr (b'\<lparr>m_blocks := m_blocks b' @ new_blocks, m_end := sz'\<rparr>))"
    using False nz assms(3) by (simp add: addBack_Advance_def lp_def)
  show ?thesis
  proof (cases lp)
    case (Inl e)
    from advance_loop_frame[of D b "[]" sz "D - m_end b" _ _ _ e] Inl
    obtain b3 where "e = bad_alloc b3" "m_blocks b3 = m_blocks b" "m_end b3 = m_end b"
      unfolding lp_def by blast
    with Inl assms show ?thesis by (auto simp: eq)
  next
    case (Inr r)
    obtain b2 nb2 sz2 where r: "r = (b2, nb2, sz2)" by (cases r) auto
    from advance_loop_frame[of D b "[]" sz "D - m_end b" b2 nb2 sz2] Inr r
    have "nb2 \<noteq> []" "sz2 < D" unfolding lp_def by blast+
    with Inr r show ?thesis by (auto simp: eq)
  qed
qed

lemma addBack_CStr_m_end:
  assumes "0 < D" "m_end b < D" "m_blocks b \<noteq> []" "csize \<le> length cdata"
  shows "(addBack_CStr D nd b cdata csize = Inr b' \<longrightarrow> m_end b' < D \<and> m_blocks b' \<noteq> [])
       \<and> (addBack_CStr D nd b cdata csize = Inl (bad_alloc b')
             \<longrightarrow> m_end b' < D \<and> m_blocks b' \<noteq> [])"
proof (cases "csize \<noteq> 0 \<and> \<not> D - m_end b > length cdata")
  case True
  then have "addBack_CStr D nd b cdata csize = addBack D nd b (take csize cdata)"
    using assms(3) by (simp add: addBack_CStr_def)
  with addBack_m_end[OF assms(1-3), of nd "take csize cdata" b'] show ?thesis by simp
next
  case False
  with assms show ?thesis by (auto simp: addBack_CStr_def)
qed

subsection \<open>\<^verbatim>\<open>dropFront\<close>\<close>

lemma delBlockAndNext_head:
  "Suc 0 < length (m_blocks b) \<Longrightarrow>
   delBlockAndNext b 0 =
     Inr (0, b\<lparr>m_blocks := tl (m_blocks b),
               m_all := data (hd (m_blocks b)) # m_all b\<rparr>)"
  by (cases "m_blocks b") (simp_all add: delBlockAndNext_def delBlock_def deallocate_def)

lemma dropFront_loop_result:
  "dropFront_loop D nd b sz left_in_block = Inr (b', sz') \<Longrightarrow>
   \<exists>j. m_blocks b' = drop j (m_blocks b) \<and> (m_blocks b \<noteq> [] \<longrightarrow> j < length (m_blocks b))
     \<and> m_end b' = m_end b \<and> m_blockId b' = m_blockId b \<and> m_iterators b' = m_iterators b
     \<and> m_all b' = rev (map data (take j (m_blocks b))) @ m_all b
     \<and> (j = 0 \<longrightarrow> b' = b \<and> sz' = sz \<and> sz \<le> left_in_block)
     \<and> (0 < j \<longrightarrow> m_begin b' = 0 \<and> 0 < sz' \<and> sz' \<le> D
            \<and> sz = sz' + left_in_block + (j - 1) * D)"
proof (induction "length (m_blocks b)" arbitrary: b sz left_in_block)
  case 0
  then show ?case
    by (auto simp: dropFront_loop.simps[of D nd b sz left_in_block] delBlockAndNext_def
        split: if_splits)
next
  case (Suc n)
  note unf = dropFront_loop.simps[of D nd b sz left_in_block]
  show ?case
  proof (cases "sz > left_in_block")
    case False
    with Suc.prems have "b' = b" "sz' = sz" by (simp_all add: unf)
    with False Suc(2) show ?thesis by (intro exI[of _ 0]) auto
  next
    case True
    show ?thesis
    proof (cases "Suc 0 < length (m_blocks b)")
      case False
      with Suc.prems True show ?thesis
        by (simp add: unf delBlockAndNext_def split: if_splits)
    next
      case long: True
      define b1 where "b1 = b\<lparr>m_blocks := tl (m_blocks b),
               m_all := data (hd (m_blocks b)) # m_all b\<rparr>"
      have d: "delBlockAndNext b 0 = Inr (0, b1)"
        using long by (simp add: delBlockAndNext_head b1_def)
      from Suc.prems True d
      have r: "dropFront_loop D nd (b1\<lparr>m_begin := 0\<rparr>) (sz - left_in_block) D = Inr (b', sz')"
        by (simp add: unf split: if_splits)
      have l: "n = length (m_blocks (b1\<lparr>m_begin := 0\<rparr>))" using Suc(2) by (simp add: b1_def)
      from Suc(1)[OF l r] obtain j where
        j1: "m_blocks b' = drop j (m_blocks (b1\<lparr>m_begin := 0\<rparr>))"
        and j2: "m_blocks (b1\<lparr>m_begin := 0\<rparr>) \<noteq> [] \<longrightarrow> j < length (m_blocks (b1\<lparr>m_begin := 0\<rparr>))"
        and j3: "m_end b' = m_end (b1\<lparr>m_begin := 0\<rparr>)"
                "m_blockId b' = m_blockId (b1\<lparr>m_begin := 0\<rparr>)"
                "m_iterators b' = m_iterators (b1\<lparr>m_begin := 0\<rparr>)"
        and j4: "m_all b' = rev (map data (take j (m_blocks (b1\<lparr>m_begin := 0\<rparr>))))
                             @ m_all (b1\<lparr>m_begin := 0\<rparr>)"
        and j5: "j = 0 \<longrightarrow> b' = b1\<lparr>m_begin := 0\<rparr> \<and> sz' = sz - left_in_block
                    \<and> sz - left_in_block \<le> D"
        and j6: "0 < j \<longrightarrow> m_begin b' = 0 \<and> 0 < sz' \<and> sz' \<le> D
                    \<and> sz - left_in_block = sz' + D + (j - 1) * D"
        by blast
      obtain x xs where bs: "m_blocks b = x # xs" "xs \<noteq> []"
        using long by (cases "m_blocks b") auto
      have c1: "m_blocks b' = drop (Suc j) (m_blocks b)" using j1 bs by (simp add: b1_def)
      have c2: "Suc j < length (m_blocks b)" using j2 bs by (simp add: b1_def)
      have c3: "m_end b' = m_end b" "m_blockId b' = m_blockId b" "m_iterators b' = m_iterators b"
        using j3 by (simp_all add: b1_def)
      have c4: "m_all b' = rev (map data (take (Suc j) (m_blocks b))) @ m_all b"
        using j4 bs by (simp add: b1_def)
      have c5: "m_begin b' = 0"
      proof (cases "j = 0")
        case True with j5 have "b' = b1\<lparr>m_begin := 0\<rparr>" by blast
        then show ?thesis by simp
      next
        case False with j6 show ?thesis by simp
      qed
      have c6: "0 < sz' \<and> sz' \<le> D \<and> sz = sz' + left_in_block + j * D"
      proof (cases "j = 0")
        case True
        with j5 have "sz' = sz - left_in_block" "sz - left_in_block \<le> D" by blast+
        with \<open>sz > left_in_block\<close> True show ?thesis by simp
      next
        case False
        with j6 have "0 < sz'" "sz' \<le> D" "sz - left_in_block = sz' + D + (j - 1) * D"
          by simp_all
        moreover have "D + (j - 1) * D = j * D" using False by (simp add: mult_eq_if)
        ultimately show ?thesis using \<open>sz > left_in_block\<close> by simp
      qed
      show ?thesis
        using c1 c2 c3 c4 c5 c6 by (intro exI[of _ "Suc j"]) simp
    qed
  qed
qed

lemma dropFront_loop_returns:
  "ids_from h (m_blocks b) \<Longrightarrow> i < length (m_blocks b) \<Longrightarrow> sz \<le> i * D + left_in_block
   \<Longrightarrow> nd \<or> m_iterators b = [] \<or> m_block (hd (m_iterators b)) = h + i
   \<Longrightarrow> \<exists>r. dropFront_loop D nd b sz left_in_block = Inr r"
proof (induction i arbitrary: b sz left_in_block h)
  case 0
  then show ?case by (simp add: dropFront_loop.simps[of D nd b sz left_in_block])
next
  case (Suc i)
  note unf = dropFront_loop.simps[of D nd b sz left_in_block]
  show ?case
  proof (cases "sz > left_in_block")
    case False
    then show ?thesis by (simp add: unf)
  next
    case True
    obtain x xs where bs0: "m_blocks b = x # xs"
      using Suc.prems(2) by (cases "m_blocks b") auto
    with Suc.prems(2) have "i < length xs" by simp
    then have "xs \<noteq> []" by (cases xs) simp_all
    with bs0 have bs: "m_blocks b = x # xs" "xs \<noteq> []" by simp_all
    define b1 where "b1 = b\<lparr>m_blocks := tl (m_blocks b),
               m_all := data (hd (m_blocks b)) # m_all b\<rparr>"
    have d: "delBlockAndNext b 0 = Inr (0, b1)"
      using bs by (simp add: delBlockAndNext_head b1_def)
    have hx: "block_id x = h" "ids_from (Suc h) xs" using Suc.prems(1) bs by simp_all
    have a: "nd \<or> m_iterators b = [] \<or> m_block (hd (m_iterators b)) \<noteq> block_id (hd (m_blocks b))"
      using Suc.prems(4) hx bs by auto
    have "\<exists>r. dropFront_loop D nd (b1\<lparr>m_begin := 0\<rparr>) (sz - left_in_block) D = Inr r"
    proof (rule Suc.IH[of "Suc h"])
      show "ids_from (Suc h) (m_blocks (b1\<lparr>m_begin := 0\<rparr>))" using hx bs by (simp add: b1_def)
      show "i < length (m_blocks (b1\<lparr>m_begin := 0\<rparr>))" using Suc.prems(2) bs by (simp add: b1_def)
      show "sz - left_in_block \<le> i * D + D" using Suc.prems(3) by simp
      show "nd \<or> m_iterators (b1\<lparr>m_begin := 0\<rparr>) = []
              \<or> m_block (hd (m_iterators (b1\<lparr>m_begin := 0\<rparr>))) = Suc h + i"
        using Suc.prems(4) by (simp add: b1_def)
    qed
    then show ?thesis using True d a by (auto simp: unf)
  qed
qed

lemma dropFront_frame:
  assumes "dropFront D nd b sz = Inr b'"
  shows "m_end b' = m_end b \<and> m_blocks b' \<noteq> [] \<and> m_blockId b' = m_blockId b
       \<and> m_iterators b' = m_iterators b"
proof -
  from assms have ne: "m_blocks b \<noteq> []" by (auto simp: dropFront_def split: if_splits)
  from assms ne obtain b1 sz' where
    lp: "dropFront_loop D nd b sz (D - m_begin b) = Inr (b1, sz')"
    and b': "b' = b1\<lparr>m_begin := m_begin b1 + sz'\<rparr>"
    by (auto simp: dropFront_def Let_def split: if_splits sum.splits)
  from dropFront_loop_result[OF lp] ne obtain j where
    "m_blocks b1 = drop j (m_blocks b)" "j < length (m_blocks b)"
    "m_end b1 = m_end b" "m_blockId b1 = m_blockId b" "m_iterators b1 = m_iterators b"
    by blast
  then show ?thesis by (simp add: b')
qed

subsection \<open>\<^verbatim>\<open>insert\<close>, \<^verbatim>\<open>release\<close> and \<^verbatim>\<open>set\<close> keep the list of blocks\<close>

lemma memmove_length: "memmove bs db d sb s n = Some bs1 \<Longrightarrow> length bs1 = length bs"
  by (auto simp: memmove_def split: if_splits)

lemma memmove_ids:
  "memmove bs db d sb s n = Some bs1 \<Longrightarrow> map block_id bs1 = map block_id bs"
  by (auto simp: memmove_def map_update list_update_same_conv split: if_splits)

lemma insert_loop_frame:
  "(insert_loop D nd itr bs sb db src dst ls ld chunk = Inr (bs', sb', src')
      \<longrightarrow> length bs' = length bs)
   \<and> (insert_loop D nd itr bs sb db src dst ls ld chunk = Inl e
      \<longrightarrow> e = invalid_access \<or> e = assertion_failed)"
proof (induction "sb + db" arbitrary: bs sb db src dst ls ld chunk rule: less_induct)
  case less
  note unf = insert_loop.simps[of D nd itr bs sb db src dst ls ld chunk]
  show ?case
  proof (cases "memmove bs db dst sb src chunk")
    case None
    then show ?thesis unfolding unf by auto
  next
    case (Some bs1)
    have l1: "length bs1 = length bs" using Some by (rule memmove_length)
    show ?thesis
    proof (cases "ld > ls")
      case True
      show ?thesis
      proof (cases sb)
        case 0
        show ?thesis unfolding unf using Some True l1 0 by auto
      next
        case (Suc sb1)
        have "sb1 + db < sb + db" using Suc by simp
        from less[OF this, of bs1 "D - (ld - chunk)" 0 "D - src_block_begin bs1 itr sb1"
                      "ld - chunk" "ld - chunk"]
        show ?thesis unfolding unf using Some True l1 Suc by auto
      qed
    next
      case False
      show ?thesis
      proof (cases db)
        case 0
        show ?thesis unfolding unf using Some False 0 by auto
      next
        case (Suc db1)
        have "sb + db1 < sb + db" using Suc by simp
        from less[OF this, of bs1 0 "D - (ls - chunk)" "ls - chunk" D "ls - chunk"]
        show ?thesis unfolding unf using Some False l1 Suc by auto
      qed
    qed
  qed
qed

lemma moveForward_loop_error:
  "moveForward_loop D blks pos step = Inl e \<Longrightarrow> e = invalid_access"
  by (induction D blks pos step rule: moveForward_loop.induct)
     (auto split: if_splits list.splits)

lemma moveForward_error:
  "moveForward D nd bs this step = Inl e \<Longrightarrow> e = invalid_access \<or> e = assertion_failed"
  by (auto simp: moveForward_def split: if_splits dest: moveForward_loop_error)

lemma insert_iterators_error:
  "insert_iterators D nd bs itr sz rits = Inl e \<Longrightarrow> e = invalid_access \<or> e = assertion_failed"
proof (induction rits arbitrary: e)
  case Nil then show ?case by simp
next
  case (Cons tmp rits)
  then show ?case
    by (auto split: if_splits sum.splits dest: moveForward_error)
qed

lemma insert_data_frame:
  "(insert_data D nd bs new_end itr sb sbe = Inr bs' \<longrightarrow> length bs' = length bs)
   \<and> (insert_data D nd bs new_end itr sb sbe = Inl e
        \<longrightarrow> e = invalid_access \<or> e = assertion_failed)"
proof -
  define ls where "ls = sbe - src_block_begin bs itr sb"
  define src where "src = (if new_end > ls then src_block_begin bs itr sb else sbe - new_end)"
  define dst where "dst = (if new_end > ls then new_end - ls else 0)"
  define lp where "lp = insert_loop D nd itr bs sb (length bs - 1) src dst ls new_end
                          (min ls new_end)"
  have eq: "insert_data D nd bs new_end itr sb sbe =
      (if src_block_begin bs itr sb > sbe then Inl invalid_access
       else if \<not> (nd \<or> dst \<le> new_end) then Inl assertion_failed
       else case lp of
              Inl e \<Rightarrow> Inl e
            | Inr (bs', src_block', src') \<Rightarrow>
                (if \<not> (nd \<or> m_position itr \<ge> src') then Inl assertion_failed
                 else Inr bs'))"
    unfolding insert_data_def Let_def lp_def dst_def src_def ls_def ..
  show ?thesis
  proof (cases lp)
    case (Inl e')
    with insert_loop_frame[of D nd itr bs sb _ src dst ls new_end _ _ _ _ e']
    have "e' = invalid_access \<or> e' = assertion_failed" unfolding lp_def by blast
    with Inl show ?thesis unfolding eq by auto
  next
    case (Inr r)
    obtain bs1 sb1 src1 where r: "r = (bs1, sb1, src1)" by (cases r) auto
    with Inr insert_loop_frame[of D nd itr bs sb _ src dst ls new_end _ bs1 sb1 src1]
    have "length bs1 = length bs" unfolding lp_def by blast
    with Inr r show ?thesis unfolding eq by auto
  qed
qed

lemma insert_buf_Inr:
  assumes "insert_buf D nd b itr sz = Inr b'"
  shows "\<exists>b1 bs' its. addBack_Advance D nd b sz = Inr b1
           \<and> b' = b1\<lparr>m_blocks := bs', m_iterators := its\<rparr>
           \<and> length bs' = length (m_blocks b1)"
proof -
  from assms obtain b1 bs' rits where a: "addBack_Advance D nd b sz = Inr b1"
    and d: "insert_data D nd (m_blocks b1) (m_end b1) itr (length (m_blocks b) - 1) (m_end b)
              = Inr bs'"
    and b': "b' = b1\<lparr>m_blocks := bs', m_iterators := rev rits\<rparr>"
    by (auto simp: insert_buf_def split: if_splits sum.splits)
  from insert_data_frame[of D nd "m_blocks b1" "m_end b1" itr _ "m_end b" bs'] d
  have "length bs' = length (m_blocks b1)" by blast
  with a b' show ?thesis by blast
qed

lemma insert_buf_bad_alloc:
  assumes "insert_buf D nd b itr sz = Inl (bad_alloc b')"
  shows "addBack_Advance D nd b sz = Inl (bad_alloc b')"
proof (cases "addBack_Advance D nd b sz")
  case (Inl e)
  with assms show ?thesis by (auto simp: insert_buf_def split: if_splits)
next
  case (Inr b1)
  show ?thesis
  proof (cases "insert_data D nd (m_blocks b1) (m_end b1) itr (length (m_blocks b) - 1) (m_end b)")
    case (Inl e)
    with insert_data_frame[of D nd "m_blocks b1" "m_end b1" itr _ "m_end b" _ e]
    have "e = invalid_access \<or> e = assertion_failed" by blast
    with Inl \<open>addBack_Advance D nd b sz = Inr b1\<close> assms show ?thesis
      by (auto simp: insert_buf_def split: if_splits)
  next
    case d: (Inr bs')
    show ?thesis
    proof (cases "insert_iterators D nd bs' itr sz (rev (m_iterators b1))")
      case (Inl e)
      from insert_iterators_error[OF Inl] Inl d Inr assms show ?thesis
        by (auto simp: insert_buf_def split: if_splits)
    next
      case r: (Inr rits)
      with d Inr assms show ?thesis by (auto simp: insert_buf_def split: if_splits)
    qed
  qed
qed

lemma insert_buf_m_end:
  assumes "0 < D" "m_end b < D" "m_blocks b \<noteq> []"
  shows "(insert_buf D nd b itr sz = Inr b' \<longrightarrow> m_end b' < D \<and> m_blocks b' \<noteq> [])
       \<and> (insert_buf D nd b itr sz = Inl (bad_alloc b') \<longrightarrow> m_end b' < D \<and> m_blocks b' \<noteq> [])"
proof (intro conjI impI)
  assume "insert_buf D nd b itr sz = Inr b'"
  from insert_buf_Inr[OF this] obtain b1 bs' its where
    a: "addBack_Advance D nd b sz = Inr b1" and b': "b' = b1\<lparr>m_blocks := bs', m_iterators := its\<rparr>"
    and l: "length bs' = length (m_blocks b1)" by blast
  from addBack_Advance_m_end[OF assms, of nd sz b1] a
  have "m_end b1 < D" "m_blocks b1 \<noteq> []" by simp_all
  with l b' show "m_end b' < D" "m_blocks b' \<noteq> []" by auto
next
  assume "insert_buf D nd b itr sz = Inl (bad_alloc b')"
  from insert_buf_bad_alloc[OF this] addBack_Advance_m_end[OF assms, of nd sz b']
  show "m_end b' < D" "m_blocks b' \<noteq> []" by simp_all
qed

lemma release_m_end:
  assumes "0 < D" "m_end b < D" and r: "release D nd b itr sz = Inr b'"
  shows "m_end b' < D \<and> m_blocks b' \<noteq> []"
proof -
  from r obtain bs' its where
    d: "dropBack D nd (b\<lparr>m_blocks := bs', m_iterators := its\<rparr>) sz = Inr b'"
    by (auto simp: release_def split: option.splits if_splits sum.splits)
  from dropBack_result[OF d] assms(2) show ?thesis
    by (cases "length (m_blocks b') = length bs'") auto
qed

lemma dropBack_m_end:
  assumes "m_end b < D" and r: "dropBack D nd b sz = Inr b'"
  shows "m_end b' < D \<and> m_blocks b' \<noteq> []"
  using dropBack_result[OF r] assms(1)
  by (cases "length (m_blocks b') = length (m_blocks b)") auto

lemma set_loop_frame:
  "set_loop D blks pos buf left_in_block = Inr blks' \<Longrightarrow>
   map block_id blks' = map block_id blks"
proof (induction blks arbitrary: pos buf left_in_block blks')
  case Nil
  then show ?case by (simp add: set_loop.simps[of D "[]"] split: if_splits)
next
  case (Cons x rest)
  note unf = set_loop.simps[of D "x # rest" pos buf left_in_block]
  show ?case
  proof (cases "length buf = 0 \<or> length buf - min (length buf) left_in_block = 0")
    case True
    with Cons.prems show ?thesis by (auto simp: unf split: if_splits)
  next
    case False
    with Cons.prems obtain rest' where
      r: "set_loop D rest 0 (drop (min (length buf) left_in_block) buf) D = Inr rest'"
      and b: "blks' = write_block pos (take (min (length buf) left_in_block) buf) x # rest'"
      by (auto simp: unf split: if_splits sum.splits)
    from Cons.IH[OF r] b show ?thesis by simp
  qed
qed

lemma set_buf_frame:
  assumes "set_buf D b itr buf = Inr b'"
  shows "map block_id (m_blocks b') = map block_id (m_blocks b)
       \<and> m_begin b' = m_begin b \<and> m_end b' = m_end b \<and> m_iterators b' = m_iterators b
       \<and> m_blockId b' = m_blockId b \<and> m_all b' = m_all b"
proof -
  from assms obtain blks where
    s: "set_loop D (blocks_from (m_blocks b) (m_block itr)) (m_position itr) buf
          (D - m_position itr) = Inr blks"
    and b': "b' = b\<lparr>m_blocks := takeWhile (\<lambda>x. block_id x \<noteq> m_block itr) (m_blocks b) @ blks\<rparr>"
    by (auto simp: set_buf_def split: sum.splits)
  have "map block_id (takeWhile (\<lambda>x. block_id x \<noteq> m_block itr) (m_blocks b) @ blks) =
        map block_id (takeWhile (\<lambda>x. block_id x \<noteq> m_block itr) (m_blocks b))
          @ map block_id (dropWhile (\<lambda>x. block_id x \<noteq> m_block itr) (m_blocks b))"
    using set_loop_frame[OF s] by (simp add: blocks_from_def)
  also have "\<dots> = map block_id (takeWhile (\<lambda>x. block_id x \<noteq> m_block itr) (m_blocks b)
                        @ dropWhile (\<lambda>x. block_id x \<noteq> m_block itr) (m_blocks b))"
    by (simp only: map_append)
  finally have "map block_id (takeWhile (\<lambda>x. block_id x \<noteq> m_block itr) (m_blocks b) @ blks) =
        map block_id (m_blocks b)"
    by (simp only: takeWhile_dropWhile_id)
  then show ?thesis by (simp add: b')
qed

lemma set_T_frame:
  assumes "set_T D b itr t = Inr b'"
  shows "map block_id (m_blocks b') = map block_id (m_blocks b)
       \<and> m_begin b' = m_begin b \<and> m_end b' = m_end b \<and> m_iterators b' = m_iterators b
       \<and> m_blockId b' = m_blockId b \<and> m_all b' = m_all b"
proof (cases "length t \<le> D - m_position itr")
  case True
  with assms show ?thesis by (auto simp: set_T_def split: if_splits)
next
  case False
  with assms have "set_buf D b itr t = Inr b'" by (simp add: set_T_def)
  then show ?thesis by (rule set_buf_frame)
qed

subsection \<open>\<^verbatim>\<open>m_end\<close> stays inside the tail block\<close>

lemma addBack_alloc_path:
  assumes "m_end b < D" "m_blocks b \<noteq> []" "D - m_end b \<le> length buf"
  shows "(addBack D nd b buf = Inr b' \<longrightarrow> length (m_blocks b) < length (m_blocks b') \<and> m_end b' < D)
       \<and> (addBack D nd b buf = Inl e \<longrightarrow> (\<exists>b3. e = bad_alloc b3))"
proof -
  from assms(1,3) have nz: "length buf \<noteq> 0" by (cases buf) auto
  define lp where "lp = addBack_loop D b [] (block_id (last (m_blocks b)), m_end b) buf (D - m_end b)"
  have eq: "addBack D nd b buf =
      (case lp of Inl e \<Rightarrow> Inl e
       | Inr (b', new_blocks, new_end, buf') \<Rightarrow>
           Inr (b'\<lparr>m_blocks := m_blocks b' @ memcpy new_blocks (fst new_end) (snd new_end) buf',
                   m_end := snd new_end + length buf'\<rparr>))"
    using assms nz by (simp add: addBack_def lp_def)
  show ?thesis
  proof (cases lp)
    case (Inl e')
    from addBack_loop_frame[of D b "[]" _ buf "D - m_end b" _ _ _ _ e'] Inl
    obtain b3 where "e' = bad_alloc b3" unfolding lp_def by blast
    with Inl show ?thesis by (auto simp: eq)
  next
    case (Inr r)
    obtain b2 nb2 ne2 buf2 where r: "r = (b2, nb2, ne2, buf2)" by (cases r) auto
    from addBack_loop_frame[of D b "[]" _ buf "D - m_end b" b2 nb2 ne2 buf2] Inr r
    have "length (m_blocks b2) = length (m_blocks b)" "nb2 \<noteq> []" "snd ne2 = 0" "length buf2 < D"
      unfolding lp_def by blast+
    moreover from this(2) have "0 < length nb2" by simp
    ultimately show ?thesis using Inr r by (auto simp: eq)
  qed
qed

lemma addBack_exact_fit:
  assumes "0 < D" "m_end b < D" "m_blocks b \<noteq> []" "length buf = D - m_end b" "m_all b \<noteq> []"
  shows "\<exists>b'. addBack D nd b buf = Inr b' \<and> length (m_blocks b') = length (m_blocks b) + 1
           \<and> m_end b' = 0"
proof -
  from assms(2,4) have nz: "length buf \<noteq> 0" by simp
  obtain c cs where p: "m_all b = c # cs" using assms(5) by (cases "m_all b") auto
  have "addBack_loop D b [] (block_id (last (m_blocks b)), m_end b) buf (D - m_end b) =
          Inr (b\<lparr>m_blocks := memcpy (m_blocks b) (block_id (last (m_blocks b))) (m_end b) buf,
                 m_blockId := m_blockId b + 1, m_all := cs\<rparr>,
               [\<lparr>block_id = m_blockId b, data = c\<rparr>], (m_blockId b, 0), [])"
    using assms(1,4) p
    by (simp add: addBack_loop.simps[of D b "[]" _ buf "D - m_end b"] newBlock_def allocate_def
        memcpy_def)
  then show ?thesis using assms(2,3,4) nz by (simp add: addBack_def)
qed

lemma Buffer_m_end:
  "Buffer all = Some b \<Longrightarrow> m_end b = 0 \<and> m_begin b = 0 \<and> length (m_blocks b) = 1"
  by (auto simp: Buffer_def newBlock_def allocate_def split: list.splits)

lemma flush_frame:
  assumes "flush D nd ord b = Inr b'"
  shows "m_end b' = m_end b \<and> (m_blocks b \<noteq> [] \<longrightarrow> m_blocks b' \<noteq> [])"
proof (cases "flush D nd ord b = Inr b")
  case True
  with assms show ?thesis by simp
next
  case False
  with assms obtain sz where "dropFront D nd b sz = Inr b'"
    by (auto simp: flush_def Let_def split: if_splits)
  from dropFront_frame[OF this] show ?thesis by simp
qed

lemma dropBack_loop_error:
  "dropBack_loop D nd b block sz left_in_block = Inl e
     \<Longrightarrow> e = invalid_access \<or> e = assertion_failed"
proof (induction block arbitrary: b sz left_in_block)
  case 0
  then show ?case
    by (auto simp: dropBack_loop.simps[of D nd b 0 sz left_in_block] delBlockAndPrev_def
        split: if_splits)
next
  case (Suc j)
  note unf = dropBack_loop.simps[of D nd b "Suc j" sz left_in_block]
  show ?case
  proof (cases "delBlockAndPrev b (Suc j)")
    case (Inl e')
    then have "e' = invalid_access" by (auto simp: delBlockAndPrev_def split: if_splits)
    with Inl Suc.prems show ?thesis by (auto simp: unf split: if_splits)
  next
    case (Inr r)
    then obtain b1 where r: "r = (j, b1)" by (auto simp: delBlockAndPrev_def split: if_splits)
    show ?thesis
    proof (cases "dropBack_loop D nd (b1\<lparr>m_end := D\<rparr>) j (sz - left_in_block) D = Inl e")
      case True
      then show ?thesis by (rule Suc.IH)
    next
      case False
      with Inr r Suc.prems show ?thesis by (auto simp: unf split: if_splits)
    qed
  qed
qed

lemma dropBack_error:
  "dropBack D nd b sz = Inl e \<Longrightarrow> e = invalid_access \<or> e = assertion_failed"
  by (auto simp: dropBack_def Let_def split: if_splits sum.splits dest: dropBack_loop_error)

lemma release_locate_error:
  "release_locate D bs sb src step = Inl e \<Longrightarrow> e = invalid_access"
proof (induction "length bs - sb" arbitrary: sb src step)
  case 0
  then show ?case
    by (auto simp: release_locate.simps[of D bs sb src step] split: if_splits)
next
  case (Suc n)
  note unf = release_locate.simps[of D bs sb src step]
  show ?case
  proof (cases "release_locate D bs (Suc sb) 0 (step - (D - src)) = Inl e")
    case True
    moreover have "n = length bs - Suc sb" using Suc(2) by simp
    ultimately show ?thesis using Suc(1) by blast
  next
    case False
    with Suc.prems show ?thesis by (auto simp: unf split: if_splits)
  qed
qed

lemma release_loop_error:
  "release_loop D bs sb db src dst ls ld chunk = Inl e \<Longrightarrow> e = invalid_access"
proof (induction "(length bs - sb) + (length bs - db)" arbitrary: bs sb db src dst ls ld chunk
        rule: less_induct)
  case less
  note unf = release_loop.simps[of D bs sb db src dst ls ld chunk]
  show ?case
  proof (cases "memmove bs db dst sb src chunk")
    case None
    with less.prems show ?thesis by (simp add: unf)
  next
    case (Some bs1)
    have l1: "length bs1 = length bs" using Some by (rule memmove_length)
    show ?thesis
    proof (cases "ld > ls")
      case True
      show ?thesis
      proof (cases "Suc sb < length bs1")
        case False
        with less.prems Some True show ?thesis by (auto simp: unf split: if_splits)
      next
        case lt: True
        with less.prems Some True
        have r: "release_loop D bs1 (Suc sb) db 0 (dst + chunk) D (ld - chunk) (ld - chunk) = Inl e"
          by (auto simp: unf split: if_splits)
        have "(length bs1 - Suc sb) + (length bs1 - db) < (length bs - sb) + (length bs - db)"
          using lt l1 by simp
        from less.hyps[OF this r] show ?thesis .
      qed
    next
      case False
      show ?thesis
      proof (cases "Suc db < length bs1")
        case nlt: False
        with less.prems Some False show ?thesis by (auto simp: unf split: if_splits)
      next
        case lt: True
        with less.prems Some False
        have r: "release_loop D bs1 sb (Suc db) (src + chunk) 0 (ls - chunk) D (ls - chunk) = Inl e"
          by (auto simp: unf split: if_splits)
        have "(length bs1 - sb) + (length bs1 - Suc db) < (length bs - sb) + (length bs - db)"
          using lt l1 by simp
        from less.hyps[OF this r] show ?thesis .
      qed
    qed
  qed
qed

lemma moveBackward_loop_error:
  "moveBackward_loop D bs i pos step = Inl e \<Longrightarrow> e = invalid_access"
  by (induction D bs i pos step rule: moveBackward_loop.induct)
     (auto split: if_splits nat.splits)

declare moveBackward_loop.simps [simp del]

lemma moveBackward_error:
  "moveBackward D nd bs this step = Inl e \<Longrightarrow> e = invalid_access \<or> e = assertion_failed"
  by (auto simp: moveBackward_def split: if_splits option.splits dest: moveBackward_loop_error)

lemma release_iterators_error:
  "release_iterators D nd bs itr sz rits = Inl e \<Longrightarrow> e = invalid_access \<or> e = assertion_failed"
proof (induction rits arbitrary: e)
  case Nil then show ?case by simp
next
  case (Cons tmp rits)
  then show ?case
    by (auto split: if_splits sum.splits dest: moveBackward_error)
qed

lemma release_error:
  assumes "release D nd b itr sz = Inl e"
  shows "e = invalid_access \<or> e = assertion_failed"
proof (cases "block_index (m_blocks b) (m_block itr)")
  case None
  with assms show ?thesis by (simp add: release_def)
next
  case (Some ib)
  show ?thesis
  proof (cases "release_data D nd (m_blocks b) itr ib sz")
    case (Inl e')
    then have "e' = invalid_access \<or> e' = assertion_failed"
      by (auto simp: release_data_def split: if_splits sum.splits
          dest: release_locate_error release_loop_error)
    with Inl Some assms show ?thesis by (simp add: release_def)
  next
    case d: (Inr bs')
    show ?thesis
    proof (cases "release_iterators D nd bs' itr sz (rev (m_iterators b))")
      case (Inl e')
      from release_iterators_error[OF Inl] Inl d Some assms show ?thesis
        by (simp add: release_def)
    next
      case (Inr rits)
      with d Some assms have "dropBack D nd (b\<lparr>m_blocks := bs', m_iterators := rev rits\<rparr>) sz = Inl e"
        by (simp add: release_def)
      then show ?thesis by (rule dropBack_error)
    qed
  qed
qed

lemma resize_m_end:
  assumes "0 < D" "m_end b < D" "m_blocks b \<noteq> []"
  shows "(resize D nd b itr sz new_size = Inr b' \<longrightarrow> m_end b' < D \<and> m_blocks b' \<noteq> [])
       \<and> (resize D nd b itr sz new_size = Inl (bad_alloc b') \<longrightarrow> m_end b' < D \<and> m_blocks b' \<noteq> [])"
proof (cases "new_size > sz")
  case True
  with insert_buf_m_end[OF assms, of nd itr "new_size - sz" b'] show ?thesis
    by (simp add: resize_def)
next
  case False
  have "release D nd b itr (sz - new_size) \<noteq> Inl (bad_alloc b')"
    using release_error[of D nd b itr "sz - new_size" "bad_alloc b'"] by auto
  with False release_m_end[OF assms(1,2), of nd itr "sz - new_size" b'] show ?thesis
    by (auto simp: resize_def)
qed

text \<open>
  Claim C9.  In every buffer that a program can hold, \<^verbatim>\<open>m_end\<close> is strictly before the end
  of the data area of the tail block.  Consequently \<^verbatim>\<open>addBack\<close> of at least as many bytes
  as the tail block has free takes the allocation path: it returns with more blocks and
  \<^verbatim>\<open>m_end\<close> inside the new tail block, or it leaves with the exception of the allocator;
  an exact fit, given one free chunk, appends one block and leaves \<^verbatim>\<open>m_end\<close> at its
  begin.
\<close>

theorem m_end_before_block_end:
  assumes "0 < D" and "reachable D nd b"
  shows "m_end b < D \<and> m_blocks b \<noteq> []
     \<and> (\<forall>buf b'. D - m_end b \<le> length buf \<longrightarrow> addBack D nd b buf = Inr b'
            \<longrightarrow> length (m_blocks b) < length (m_blocks b') \<and> m_end b' < D)
     \<and> (\<forall>buf e. D - m_end b \<le> length buf \<longrightarrow> addBack D nd b buf = Inl e
            \<longrightarrow> (\<exists>b'. e = bad_alloc b'))
     \<and> (\<forall>buf. length buf = D - m_end b \<longrightarrow> m_all b \<noteq> []
            \<longrightarrow> (\<exists>b'. addBack D nd b buf = Inr b'
                    \<and> length (m_blocks b') = length (m_blocks b) + 1 \<and> m_end b' = 0))"
proof -
  from assms(2) have inv: "m_end b < D \<and> m_blocks b \<noteq> []"
  proof (induction rule: reachable.induct)
    case (r_Buffer all b)
    from Buffer_m_end[OF this] assms(1) show ?case by auto
  next
    case (r_begin b) then show ?case by (simp add: buffer_begin_def)
  next
    case (r_end b) then show ?case by (simp add: buffer_end_def)
  next
    case (r_iterator_add b k step b' k')
    then show ?case
      by (auto simp: iterator_add_def split: if_splits sum.splits prod.splits)
  next
    case (r_iterators b its) then show ?case by simp
  next
    case (r_addBack b buf b')
    with addBack_m_end[OF assms(1), of b nd buf b'] show ?case by simp
  next
    case (r_addBack_throws b buf b')
    with addBack_m_end[OF assms(1), of b nd buf b'] show ?case by simp
  next
    case (r_addBack_T b t b')
    with addBack_m_end[OF assms(1), of b nd t b'] show ?case by (simp add: addBack_T_def)
  next
    case (r_addBack_T_throws b t b')
    with addBack_m_end[OF assms(1), of b nd t b'] show ?case by (simp add: addBack_T_def)
  next
    case (r_addBack_CStr b csize cdata b')
    with addBack_CStr_m_end[OF assms(1), of b csize cdata nd b'] show ?case by simp
  next
    case (r_addBack_CStr_throws b csize cdata b')
    with addBack_CStr_m_end[OF assms(1), of b csize cdata nd b'] show ?case by simp
  next
    case (r_addBack_Advance b sz b')
    with addBack_Advance_m_end[OF assms(1), of b nd sz b'] show ?case by simp
  next
    case (r_addBack_Advance_throws b sz b')
    with addBack_Advance_m_end[OF assms(1), of b nd sz b'] show ?case by simp
  next
    case (r_dropBack b sz b')
    with dropBack_m_end[of b D nd sz b'] show ?case by simp
  next
    case (r_dropFront b sz b')
    with dropFront_frame[of D nd b sz b'] show ?case by simp
  next
    case (r_insert b itr sz b')
    with insert_buf_m_end[OF assms(1), of b nd itr sz b'] show ?case by simp
  next
    case (r_insert_throws b itr sz b')
    with insert_buf_m_end[OF assms(1), of b nd itr sz b'] show ?case by simp
  next
    case (r_release b itr sz b')
    with release_m_end[OF assms(1), of b nd itr sz b'] show ?case by simp
  next
    case (r_resize b itr sz new_size b')
    with resize_m_end[OF assms(1), of b nd itr sz new_size b'] show ?case by simp
  next
    case (r_resize_throws b itr sz new_size b')
    with resize_m_end[OF assms(1), of b nd itr sz new_size b'] show ?case by simp
  next
    case (r_set b itr buf b')
    from set_buf_frame[OF r_set(2)] r_set(3) show ?case
      by (metis map_is_Nil_conv)
  next
    case (r_set_T b itr t b')
    from set_T_frame[OF r_set_T(2)] r_set_T(3) show ?case
      by (metis map_is_Nil_conv)
  next
    case (r_get b itr sz out b')
    then show ?case by (auto simp: get_buf_def split: sum.splits)
  next
    case (r_get_T b itr t_size out b')
    then show ?case
      by (auto simp: get_T_def get_buf_def split: sum.splits if_splits list.splits)
  next
    case (r_flush b ord b')
    with flush_frame[of D nd ord b b'] show ?case by simp
  qed
  then have e: "m_end b < D" and ne: "m_blocks b \<noteq> []" by simp_all
  from addBack_alloc_path[OF e ne] addBack_exact_fit[OF assms(1) e ne] inv
  show ?thesis by blast
qed

theorem m_end_before_block_end_witness:
  "(0::nat) < 4 \<and> reachable 4 False ex0 \<and> m_end ex0 < 4
   \<and> length ''abcd'' = 4 - m_end ex0 \<and> m_all ex0 \<noteq> []
   \<and> (\<exists>b'. addBack 4 False ex0 ''abcd'' = Inr b'
          \<and> length (m_blocks b') = length (m_blocks ex0) + 1 \<and> m_end b' = 0)"
proof -
  have r: "reachable 4 False ex0" using ex0_reached by (rule reachable.r_Buffer)
  have h: "length ''abcd'' = 4 - m_end ex0" "m_all ex0 \<noteq> []" by (simp_all add: ex0_def)
  have z: "(0::nat) < 4" by simp
  from m_end_before_block_end[OF z r] have
    "m_end ex0 < 4"
    "\<forall>buf. length buf = 4 - m_end ex0 \<longrightarrow> m_all ex0 \<noteq> []
            \<longrightarrow> (\<exists>b'. addBack 4 False ex0 buf = Inr b'
                    \<and> length (m_blocks b') = length (m_blocks ex0) + 1 \<and> m_end b' = 0)"
    by blast+
  with h r z show ?thesis by blast
qed

subsection \<open>\<^verbatim>\<open>set\<close> and \<^verbatim>\<open>get\<close> change bytes only\<close>

lemma set_loop_total:
  "list_all (\<lambda>x. length (data x) = D) blks \<Longrightarrow> pos \<le> D \<Longrightarrow> length buf + pos \<le> length blks * D
   \<Longrightarrow> \<exists>blks'. set_loop D blks pos buf (D - pos) = Inr blks'
         \<and> list_all (\<lambda>x. length (data x) = D) blks'"
proof (induction blks arbitrary: pos buf)
  case Nil
  then show ?case by (simp add: set_loop.simps[of D "[]"])
next
  case (Cons x rest)
  note unf = set_loop.simps[of D "x # rest" pos buf "D - pos"]
  have lx: "length (data x) = D" using Cons.prems(1) by simp
  show ?case
  proof (cases "length buf \<le> D - pos")
    case True
    then have "length (data (write_block pos (take (min (length buf) (D - pos)) buf) x)) = D"
      using lx Cons.prems(2) by (simp add: write_block_def min_def)
    with True Cons.prems(1) show ?thesis by (auto simp: unf)
  next
    case False
    then have m: "min (length buf) (D - pos) = D - pos" by simp
    have "\<exists>blks'. set_loop D rest 0 (drop (D - pos) buf) (D - 0) = Inr blks'
         \<and> list_all (\<lambda>x. length (data x) = D) blks'"
      using Cons.prems False by (intro Cons.IH) auto
    then obtain rest' where
      r: "set_loop D rest 0 (drop (D - pos) buf) D = Inr rest'"
      and l: "list_all (\<lambda>x. length (data x) = D) rest'" by auto
    have "length (data (write_block pos (take (D - pos) buf) x)) = D"
      using lx Cons.prems(2) False by (simp add: write_block_def)
    with False r l show ?thesis by (auto simp: unf m)
  qed
qed

lemma live_block_index:
  assumes inv: "buffer_inv D b" and blk: "m_block itr \<in> set (map block_id (m_blocks b))"
  shows "blocks_from (m_blocks b) (m_block itr) =
           drop (m_block itr - (m_blockId b - length (m_blocks b))) (m_blocks b)"
    and "takeWhile (\<lambda>x. block_id x \<noteq> m_block itr) (m_blocks b) =
           take (m_block itr - (m_blockId b - length (m_blocks b))) (m_blocks b)"
    and "m_block itr - (m_blockId b - length (m_blocks b)) < length (m_blocks b)"
proof -
  define h where "h = m_blockId b - length (m_blocks b)"
  from inv have ids: "ids_from h (m_blocks b)" and l: "length (m_blocks b) \<le> m_blockId b"
    by (simp_all add: buffer_inv_def h_def)
  from iter_valid_index[OF inv blk] l have r: "h \<le> m_block itr" "m_block itr < h + length (m_blocks b)"
    by (simp_all add: h_def)
  from blocks_from_drop[OF ids r]
  show d: "blocks_from (m_blocks b) (m_block itr) = drop (m_block itr - h) (m_blocks b)" .
  show "m_block itr - h < length (m_blocks b)" using r by simp
  define tw where "tw = takeWhile (\<lambda>x. block_id x \<noteq> m_block itr) (m_blocks b)"
  have "tw @ dropWhile (\<lambda>x. block_id x \<noteq> m_block itr) (m_blocks b) = m_blocks b"
    unfolding tw_def by (rule takeWhile_dropWhile_id)
  then have "tw @ drop (m_block itr - h) (m_blocks b) = m_blocks b"
    by (simp only: d[unfolded blocks_from_def])
  then have "length tw + length (drop (m_block itr - h) (m_blocks b)) = length (m_blocks b)"
    by (metis length_append)
  then have "length tw = m_block itr - h" using r by simp
  moreover have "tw = take (length tw) (m_blocks b)"
    unfolding tw_def by (rule takeWhile_eq_take)
  ultimately show "takeWhile (\<lambda>x. block_id x \<noteq> m_block itr) (m_blocks b) =
               take (m_block itr - h) (m_blocks b)"
    unfolding tw_def by simp
qed

lemma ids_from_cong:
  "map block_id xs = map block_id ys \<Longrightarrow> ids_from k xs = ids_from k ys"
proof (induction xs arbitrary: k ys)
  case Nil
  then show ?case by simp
next
  case (Cons x xs)
  then obtain y ys' where y: "ys = y # ys'" "block_id x = block_id y"
    "map block_id xs = map block_id ys'"
    by (cases ys) auto
  from Cons.IH[OF y(3), of "Suc k"] y(1,2) show ?case by simp
qed

lemma set_buf_total:
  assumes inv: "buffer_inv D b" and live: "iter_live D b itr"
    and sz: "m_position itr + length buf \<le> (m_blockId b - 1 - m_block itr) * D + m_end b"
  shows "\<exists>b'. set_buf D b itr buf = Inr b' \<and> buffer_inv D b'"
proof -
  define h where "h = m_blockId b - length (m_blocks b)"
  define i where "i = m_block itr - h"
  define n where "n = length (m_blocks b)"
  from live have blk: "m_block itr \<in> set (map block_id (m_blocks b))" and pos: "m_position itr < D"
    by (simp_all add: iter_live_def)
  note idx = live_block_index[OF inv blk, folded h_def, folded i_def]
  from inv have lens: "list_all (\<lambda>x. length (data x) = D) (m_blocks b)" and e: "m_end b < D"
    and l: "n \<le> m_blockId b"
    by (simp_all add: buffer_inv_def n_def)
  from iter_valid_index[OF inv blk] have hi: "m_block itr = h + i"
    by (simp add: h_def i_def)
  have il: "i < n" using idx(3) by (simp add: n_def)
  have "m_blockId b - 1 - m_block itr = n - 1 - i" using hi l il by (simp add: h_def n_def)
  with sz have "m_position itr + length buf \<le> (n - 1 - i) * D + m_end b" by simp
  moreover have "(n - 1 - i) * D + D = (n - i) * D" using il by (simp add: mult_eq_if)
  ultimately have bound: "length buf + m_position itr \<le> length (drop i (m_blocks b)) * D"
    using e by (simp add: n_def)
  have l': "list_all (\<lambda>x. length (data x) = D) (drop i (m_blocks b))"
    using lens by (auto simp: list_all_iff dest: in_set_dropD)
  from set_loop_total[OF l' _ bound] pos obtain blks' where
    s: "set_loop D (drop i (m_blocks b)) (m_position itr) buf (D - m_position itr) = Inr blks'"
    and sl: "list_all (\<lambda>x. length (data x) = D) blks'"
    by auto
  define b' where "b' = b\<lparr>m_blocks := take i (m_blocks b) @ blks'\<rparr>"
  have r: "set_buf D b itr buf = Inr b'"
    using s by (simp add: set_buf_def idx b'_def)
  from set_buf_frame[OF r] have ids: "map block_id (m_blocks b') = map block_id (m_blocks b)"
    by simp
  then have len: "length (m_blocks b') = length (m_blocks b)" by (rule map_eq_imp_length_eq)
  have la: "list_all (\<lambda>x. length (data x) = D) (m_blocks b')"
    using lens sl by (auto simp: b'_def list_all_iff dest: in_set_takeD)
  have f: "m_blockId b' = m_blockId b" "m_begin b' = m_begin b" "m_end b' = m_end b"
    "m_all b' = m_all b"
    by (simp_all add: b'_def)
  have ne: "m_blocks b' \<noteq> []" using len inv by (auto simp: buffer_inv_def)
  have "ids_from (m_blockId b' - length (m_blocks b')) (m_blocks b')"
    using inv ids_from_cong[OF ids] by (simp add: f len buffer_inv_def)
  with inv la ne have "buffer_inv D b'"
    unfolding buffer_inv_def f len by simp
  with r show ?thesis by blast
qed

lemma content_length:
  assumes "buffer_inv D b"
  shows "length (content b) = buffer_size D b"
  by (simp add: content_filled filled_length[OF assms] buffer_size_def)

lemma same_but_bytesI:
  assumes "buffer_inv D b" "buffer_inv D b'"
    and "map block_id (m_blocks b') = map block_id (m_blocks b)"
    and "m_begin b' = m_begin b" "m_end b' = m_end b" "m_iterators b' = m_iterators b"
    and "m_blockId b' = m_blockId b" "m_all b' = m_all b"
  shows "same_but_bytes D b b'"
proof -
  from assms(3) have "length (m_blocks b') = length (m_blocks b)" by (rule map_eq_imp_length_eq)
  with assms(4,5) have "buffer_size D b' = buffer_size D b" by (simp add: buffer_size_def)
  with assms content_length[OF assms(1)] content_length[OF assms(2)]
  show ?thesis by (simp add: same_but_bytes_def)
qed

lemma memcpy_lens:
  "list_all (\<lambda>x. length (data x) = D) bs \<Longrightarrow> off + length src \<le> D
   \<Longrightarrow> list_all (\<lambda>x. length (data x) = D) (memcpy bs p off src)"
  by (induction bs) (auto simp: memcpy_def write_block_def)

text \<open>
  Claim C8.  For a live iterator with at least \<open>size\<close> bytes of the buffer behind it,
  \<^verbatim>\<open>set(i, buf, size)\<close> and the typed \<^verbatim>\<open>set(i, t)\<close> return a buffer that differs from the
  former one in bytes only, and \<^verbatim>\<open>get(i, buf, size)\<close> and the typed \<^verbatim>\<open>get(i, t)\<close> return
  \<open>size\<close> bytes and the buffer itself: the byte count, the registry with every position,
  the blocks, the id counter and the pool are as before.
\<close>

theorem get_set_frame:
  assumes "buffer_inv D b" and "iter_live D b itr"
    and "m_position itr + length buf \<le> (m_blockId b - 1 - m_block itr) * D + m_end b"
  shows "(\<exists>b'. set_buf D b itr buf = Inr b' \<and> same_but_bytes D b b')
       \<and> (\<exists>b'. set_T D b itr buf = Inr b' \<and> same_but_bytes D b b')
       \<and> (\<exists>out. get_buf D b itr (length buf) = Inr (out, b) \<and> length out = length buf)
       \<and> (\<exists>out. get_T D b itr (length buf) = Inr (out, b) \<and> length out = length buf)"
proof -
  define h where "h = m_blockId b - length (m_blocks b)"
  define i where "i = m_block itr - h"
  define n where "n = length (m_blocks b)"
  from assms(2) have blk: "m_block itr \<in> set (map block_id (m_blocks b))"
    and pos: "m_position itr < D"
    by (simp_all add: iter_live_def)
  note idx = live_block_index[OF assms(1) blk, folded h_def, folded i_def]
  from assms(1) have lens: "list_all (\<lambda>x. length (data x) = D) (m_blocks b)"
    and e: "m_end b < D" and l: "n \<le> m_blockId b"
    by (simp_all add: buffer_inv_def n_def)
  from iter_valid_index[OF assms(1) blk] have hi: "m_block itr = h + i"
    by (simp add: h_def i_def)
  have il: "i < n" using idx(3) by (simp add: n_def)
  have "m_blockId b - 1 - m_block itr = n - 1 - i" using hi l il by (simp add: h_def n_def)
  with assms(3) have "m_position itr + length buf \<le> (n - 1 - i) * D + m_end b" by simp
  moreover have "(n - 1 - i) * D + D = (n - i) * D" using il by (simp add: mult_eq_if)
  ultimately have "m_position itr + length buf + i * D \<le> (n - i) * D + i * D"
    using e by simp
  moreover have "(n - i) * D + i * D = n * D"
    using il by (simp add: add_mult_distrib [symmetric])
  ultimately have bound: "length buf + m_position itr + i * D \<le> n * D" by simp
  \<comment> \<open>\<^verbatim>\<open>set\<close>\<close>
  from set_buf_total[OF assms] obtain b1 where
    s1: "set_buf D b itr buf = Inr b1" and inv1: "buffer_inv D b1" by blast
  from set_buf_frame[OF s1] have "same_but_bytes D b b1"
    by (intro same_but_bytesI[OF assms(1) inv1]) simp_all
  with s1 have c1: "\<exists>b'. set_buf D b itr buf = Inr b' \<and> same_but_bytes D b b'" by blast
  have c2: "\<exists>b'. set_T D b itr buf = Inr b' \<and> same_but_bytes D b b'"
  proof (cases "length buf \<le> D - m_position itr")
    case False
    then have "set_T D b itr buf = set_buf D b itr buf" by (simp add: set_T_def)
    with c1 show ?thesis by simp
  next
    case True
    define b2 where "b2 = b\<lparr>m_blocks := memcpy (m_blocks b) (m_block itr) (m_position itr) buf\<rparr>"
    have s2: "set_T D b itr buf = Inr b2" using True blk by (simp add: set_T_def b2_def)
    have "list_all (\<lambda>x. length (data x) = D) (m_blocks b2)"
      using memcpy_lens[OF lens, of "m_position itr" buf] True pos by (simp add: b2_def)
    moreover have "ids_from (m_blockId b - length (m_blocks b)) (m_blocks b2)"
      using assms(1) ids_from_cong[of "m_blocks b2" "m_blocks b"]
      by (simp add: b2_def buffer_inv_def)
    ultimately have "buffer_inv D b2"
      using assms(1) unfolding buffer_inv_def by (simp add: b2_def)
    then have "same_but_bytes D b b2"
      by (intro same_but_bytesI[OF assms(1)]) (simp_all add: b2_def)
    with s2 show ?thesis by blast
  qed
  \<comment> \<open>\<^verbatim>\<open>get\<close>\<close>
  have la: "length (concat (map data (m_blocks b))) = n * D"
    using concat_length_blocks[OF lens] by (simp add: n_def)
  have g: "get_buf D b itr (length buf) =
             Inr (take (length buf) (drop (i * D + m_position itr) (concat (map data (m_blocks b)))), b)"
    using bound il hi pos
    by (intro get_buf_at[OF assms(1)]) (simp_all add: n_def h_def)
  have "length (take (length buf) (drop (i * D + m_position itr) (concat (map data (m_blocks b)))))
          = length buf"
    using la bound by simp
  with g have c3: "\<exists>out. get_buf D b itr (length buf) = Inr (out, b) \<and> length out = length buf"
    by blast
  have c4: "\<exists>out. get_T D b itr (length buf) = Inr (out, b) \<and> length out = length buf"
  proof (cases "length buf \<le> D - m_position itr")
    case False
    then have "get_T D b itr (length buf) = get_buf D b itr (length buf)" by (simp add: get_T_def)
    with c3 show ?thesis by simp
  next
    case True
    obtain x rest where d: "drop i (m_blocks b) = x # rest"
      using il by (cases "drop i (m_blocks b)") (auto simp: n_def)
    then have "x \<in> set (m_blocks b)" by (metis in_set_dropD list.set_intros(1))
    with lens have "length (data x) = D" by (simp add: list_all_iff)
    with True d show ?thesis by (simp add: get_T_def idx)
  qed
  from c1 c2 c3 c4 show ?thesis by blast
qed

theorem get_set_frame_witness:
  "buffer_inv 4 ex3 \<and> iter_live 4 ex3 \<lparr>m_block = 1, m_position = 2\<rparr>
   \<and> (2::nat) + length ''XYZ'' \<le> (m_blockId ex3 - 1 - 1) * 4 + m_end ex3
   \<and> (\<exists>b'. set_buf 4 ex3 \<lparr>m_block = 1, m_position = 2\<rparr> ''XYZ'' = Inr b'
          \<and> same_but_bytes 4 ex3 b')
   \<and> (\<exists>out. get_buf 4 ex3 \<lparr>m_block = 1, m_position = 2\<rparr> (length ''XYZ'') = Inr (out, ex3))"
proof -
  have h: "iter_live 4 ex3 \<lparr>m_block = 1, m_position = 2\<rparr>"
    "m_position \<lparr>m_block = 1, m_position = 2\<rparr> + length ''XYZ''
       \<le> (m_blockId ex3 - 1 - m_block \<lparr>m_block = 1, m_position = 2\<rparr>) * 4 + m_end ex3"
    by (simp_all add: iter_live_def ex3_def)
  from get_set_frame[OF ex3_inv h]
  have "\<exists>b'. set_buf 4 ex3 \<lparr>m_block = 1, m_position = 2\<rparr> ''XYZ'' = Inr b'
          \<and> same_but_bytes 4 ex3 b'"
    "\<exists>out. get_buf 4 ex3 \<lparr>m_block = 1, m_position = 2\<rparr> (length ''XYZ'') = Inr (out, ex3)"
    by blast+
  moreover have "(2::nat) + length ''XYZ'' \<le> (m_blockId ex3 - 1 - 1) * 4 + m_end ex3"
    by (simp add: ex3_def)
  ultimately show ?thesis using ex3_inv h(1) by blast
qed

subsection \<open>Iterator arithmetic\<close>

lemma adjustPositionForward_nth:
  assumes "k < length its" and "adjustPositionForward its k = (its', k')"
  shows "k' < length its' \<and> its' ! k' = its ! k \<and> length its' = length its"
proof (cases "drop (Suc k) its = [] \<or> \<not> iter_less (hd (drop (Suc k) its)) (its ! k)")
  case True
  with assms show ?thesis by (auto simp: adjustPositionForward_def Let_def)
next
  case False
  define post where "post = drop (Suc k) its"
  define moved where "moved = hd post # takeWhile (\<lambda>x. iter_less x (its ! k)) (tl post)"
  from False have pn: "post \<noteq> []" by (simp add: post_def)
  have lm: "length moved \<le> length post"
  proof -
    have "length (takeWhile (\<lambda>x. iter_less x (its ! k)) (tl post)) \<le> length (tl post)"
      by (rule length_takeWhile_le)
    with pn show ?thesis by (cases post) (simp_all add: moved_def)
  qed
  from assms(2) False have r: "its' = take k its @ moved @ [its ! k] @ drop (length moved) post"
    "k' = k + length moved"
    by (simp_all add: adjustPositionForward_def Let_def post_def moved_def)
  have lp: "length (take k its) = k" using assms(1) by simp
  have lpost: "length post = length its - Suc k" by (simp add: post_def)
  have n: "its' ! k' = its ! k"
    unfolding r using lp by (simp add: nth_append)
  have l: "length its' = length its"
    unfolding r using lm lp lpost assms(1) by simp
  have "k' < length its'" unfolding r(2) l using lm lpost assms(1) by simp
  with n l show ?thesis by simp
qed

lemma iterator_inc_step:
  assumes "k < length (m_iterators b)"
    and "moveForward D nd (m_blocks b) (m_iterators b ! k) 1 = Inr t"
  shows "\<exists>b' k'. iterator_inc D nd b k = Inr (b', k') \<and> m_blocks b' = m_blocks b
           \<and> k' < length (m_iterators b') \<and> m_iterators b' ! k' = t"
proof -
  obtain its' k' where a: "adjustPositionForward ((m_iterators b)[k := t]) k = (its', k')"
    by (cases "adjustPositionForward ((m_iterators b)[k := t]) k") auto
  have "k < length ((m_iterators b)[k := t])" using assms(1) by simp
  from adjustPositionForward_nth[OF this a] assms(1)
  have "k' < length its'" "its' ! k' = t" by simp_all
  moreover have "iterator_inc D nd b k = Inr (b\<lparr>m_iterators := its'\<rparr>, k')"
    using assms a by (simp add: iterator_inc_def iterator_add_def)
  ultimately show ?thesis by simp
qed

lemma moveForward_one:
  assumes ids: "ids_from h bs" and D: "0 < D" and inside: "Suc o' div D < length bs"
  shows "moveForward D nd bs \<lparr>m_block = h + o' div D, m_position = o' mod D\<rparr> 1 =
           Inr \<lparr>m_block = h + Suc o' div D, m_position = Suc o' mod D\<rparr>"
proof -
  define x where "x = o' div D"
  have le: "o' div D \<le> Suc o' div D" by (rule div_le_mono) simp
  from le inside have xl: "x < length bs" unfolding x_def by (rule le_less_trans)
  have fr: "blocks_from bs (h + x) = drop x bs"
    using blocks_from_drop[OF ids, of "h + x"] xl by simp
  have dx: "drop x bs = bs ! x # drop (Suc x) bs" using xl by (simp add: Cons_nth_drop_Suc)
  have idx: "block_id (bs ! x) = h + x" using ids xl by (rule ids_from_nth)
  have pos: "o' mod D < D" using D by simp
  show ?thesis
  proof (cases "Suc (o' mod D) = D")
    case True
    then have s: "Suc o' mod D = 0" "Suc o' div D = Suc x"
      by (simp_all add: mod_Suc div_Suc x_def)
    then have sl: "Suc x < length bs" using inside by simp
    have dsx: "drop (Suc x) bs = bs ! Suc x # drop (Suc (Suc x)) bs"
      using sl by (simp add: Cons_nth_drop_Suc)
    have idsx: "block_id (bs ! Suc x) = h + Suc x" using ids sl by (rule ids_from_nth)
    have "D - o' mod D = 1" using True by simp
    then show ?thesis
      using pos D s idsx
      by (simp add: moveForward_def fr x_def [symmetric] dx dsx)
  next
    case False
    then have s: "Suc o' mod D = Suc (o' mod D)" "Suc o' div D = x"
      by (simp_all add: mod_Suc div_Suc x_def)
    have "\<not> 1 \<ge> D - o' mod D" using False pos by simp
    then show ?thesis
      using pos s idx
      by (simp add: moveForward_def fr x_def [symmetric] dx)
  qed
qed

lemma iterator_incs_offset:
  assumes ids: "ids_from h (m_blocks b)" and D: "0 < D"
    and k: "k < length (m_iterators b)"
    and at: "m_iterators b ! k = \<lparr>m_block = h + o' div D, m_position = o' mod D\<rparr>"
    and inside: "(o' + m) div D < length (m_blocks b)"
  shows "\<exists>b' k'. iterator_incs D nd m b k = Inr (b', k') \<and> m_blocks b' = m_blocks b
           \<and> k' < length (m_iterators b')
           \<and> m_iterators b' ! k' = \<lparr>m_block = h + (o' + m) div D, m_position = (o' + m) mod D\<rparr>"
  using assms
proof (induction m arbitrary: b k o')
  case 0
  then show ?case by simp
next
  case (Suc m)
  have "Suc o' div D \<le> (o' + Suc m) div D" by (rule div_le_mono) simp
  with Suc.prems(5) have i1: "Suc o' div D < length (m_blocks b)" by simp
  from moveForward_one[OF Suc.prems(1,2) i1, of nd] Suc.prems(4)
  have mf: "moveForward D nd (m_blocks b) (m_iterators b ! k) 1 =
              Inr \<lparr>m_block = h + Suc o' div D, m_position = Suc o' mod D\<rparr>" by simp
  from iterator_inc_step[OF Suc.prems(3) mf] obtain b1 k1 where
    s: "iterator_inc D nd b k = Inr (b1, k1)" "m_blocks b1 = m_blocks b"
       "k1 < length (m_iterators b1)"
       "m_iterators b1 ! k1 = \<lparr>m_block = h + Suc o' div D, m_position = Suc o' mod D\<rparr>"
    by blast
  have "\<exists>b' k'. iterator_incs D nd m b1 k1 = Inr (b', k') \<and> m_blocks b' = m_blocks b1
           \<and> k' < length (m_iterators b')
           \<and> m_iterators b' ! k' =
               \<lparr>m_block = h + (Suc o' + m) div D, m_position = (Suc o' + m) mod D\<rparr>"
    using Suc.prems s by (intro Suc.IH) simp_all
  then show ?case using s(1,2) by auto
qed

lemma iter_minus_unat:
  assumes "m_block a \<le> m_block this"
    and "m_position a \<le> (m_block this - m_block a) * D + m_position this"
    and "(m_block this - m_block a) * D + m_position this < 2 ^ 64"
  shows "unat (iter_minus D this a) =
           (m_block this - m_block a) * D + m_position this - m_position a"
proof -
  define x where "x = m_block this - m_block a"
  have "iter_minus D this a =
          word_of_nat x * word_of_nat D - word_of_nat (m_position a) + word_of_nat (m_position this)"
    using assms(1) by (simp add: iter_minus_def Let_def x_def of_nat_diff)
  also have "\<dots> = word_of_nat (x * D + m_position this) - word_of_nat (m_position a)"
    by simp
  also have "\<dots> = word_of_nat (x * D + m_position this - m_position a)"
    using assms(2) by (simp add: x_def of_nat_diff)
  finally have "unat (iter_minus D this a) =
      (x * D + m_position this - m_position a) mod 2 ^ LENGTH(64)"
    by (simp only: unat_of_nat)
  moreover have "x * D + m_position this - m_position a < 2 ^ 64"
    using assms(3) by (simp add: x_def)
  ultimately show ?thesis by (simp add: x_def)
qed

text \<open>
  Iterators inside data areas.  For a registered iterator \<open>i\<close> and a position \<open>j\<close> of the
  same buffer that both lie in front of the end of their block, with \<open>i \<le> j\<close> and a
  distance that fits \<^verbatim>\<open>size_t\<close>, the difference \<open>j - i\<close> is
  \<open>(j.block.id - i.block.id) \<cdot> DATA_SIZE + (j.offset - j.block.begin) - (i.offset - i.block.begin)\<close>,
  and it is the number of \<^verbatim>\<open>++\<close> steps that move \<open>i\<close> to the position of \<open>j\<close>: that many
  steps reach it, and no smaller number does.
\<close>

lemma iterator_difference:
  assumes "buffer_inv D b" and "k < length (m_iterators b)"
    and "iter_live D b (m_iterators b ! k)" and "iter_live D b j"
    and "iter_less (m_iterators b ! k) j \<or> iter_eq (m_iterators b ! k) j"
    and "(m_block j - m_block (m_iterators b ! k)) * D + m_position j < 2 ^ 64"
  shows "unat (iter_minus D j (m_iterators b ! k)) =
           (m_block j - m_block (m_iterators b ! k)) * D + m_position j
             - m_position (m_iterators b ! k)
     \<and> (\<exists>b' k'. iterator_incs D nd (unat (iter_minus D j (m_iterators b ! k))) b k = Inr (b', k')
           \<and> iter_eq (m_iterators b' ! k') j)
     \<and> (\<forall>m<unat (iter_minus D j (m_iterators b ! k)).
           \<exists>b' k'. iterator_incs D nd m b k = Inr (b', k') \<and> \<not> iter_eq (m_iterators b' ! k') j)"
proof -
  define i where "i = m_iterators b ! k"
  define h where "h = m_blockId b - length (m_blocks b)"
  define xi where "xi = m_block i - h"
  define xj where "xj = m_block j - h"
  define oi where "oi = xi * D + m_position i"
  define oj where "oj = xj * D + m_position j"
  from assms(1) have D: "0 < D" and ids: "ids_from h (m_blocks b)"
    and l: "length (m_blocks b) \<le> m_blockId b"
    by (simp_all add: buffer_inv_def h_def)
  from assms(3,4) have bi: "m_block i \<in> set (map block_id (m_blocks b))" and pi: "m_position i < D"
    and bj: "m_block j \<in> set (map block_id (m_blocks b))" and pj: "m_position j < D"
    by (simp_all add: iter_live_def i_def)
  from iter_valid_index[OF assms(1) bi] l have hi: "m_block i = h + xi"
    and xil: "xi < length (m_blocks b)"
    by (simp_all add: h_def xi_def)
  from iter_valid_index[OF assms(1) bj] l have hj: "m_block j = h + xj"
    and xjl: "xj < length (m_blocks b)"
    by (simp_all add: h_def xj_def)
  have oid: "oi div D = xi" "oi mod D = m_position i" using pi by (simp_all add: oi_def)
  have ojd: "oj div D = xj" "oj mod D = m_position j" using pj by (simp_all add: oj_def)
  have xle: "xi \<le> xj" using assms(5) hi hj by (auto simp: iter_less_def iter_eq_def i_def [symmetric])
  have ole: "oi \<le> oj"
  proof (cases "xi = xj")
    case True
    with assms(5) hi hj show ?thesis
      by (auto simp: iter_less_def iter_eq_def i_def [symmetric] oi_def oj_def)
  next
    case False
    with xle have "Suc xi \<le> xj" by simp
    then have "Suc xi * D \<le> xj * D" by (rule mult_le_mono1)
    with pi show ?thesis by (simp add: oi_def oj_def)
  qed
  have diff: "m_block j - m_block i = xj - xi" using hi hj by simp
  have "(xj - xi) * D + xi * D = xj * D" using xle by (simp add: add_mult_distrib [symmetric])
  then have dist: "(m_block j - m_block i) * D + m_position j - m_position i = oj - oi"
    unfolding diff oi_def oj_def by simp
  have pre2: "m_position i \<le> (m_block j - m_block i) * D + m_position j"
  proof -
    from ole have "xi * D + m_position i \<le> (xj - xi) * D + xi * D + m_position j"
      using \<open>(xj - xi) * D + xi * D = xj * D\<close> by (simp add: oi_def oj_def)
    then show ?thesis unfolding diff by simp
  qed
  have c1: "unat (iter_minus D j i) = (m_block j - m_block i) * D + m_position j - m_position i"
    using xle hi hj pre2 assms(6) by (intro iter_minus_unat) (simp_all add: i_def)
  then have n: "unat (iter_minus D j i) = oj - oi" using dist by simp
  have at: "m_iterators b ! k = \<lparr>m_block = h + oi div D, m_position = oi mod D\<rparr>"
    using oid hi by (simp add: i_def)
  have steps: "\<exists>b' k'. iterator_incs D nd m b k = Inr (b', k')
           \<and> m_iterators b' ! k' = \<lparr>m_block = h + (oi + m) div D, m_position = (oi + m) mod D\<rparr>"
    if "m \<le> oj - oi" for m
  proof -
    from that ole have "oi + m \<le> oj" by simp
    then have "(oi + m) div D \<le> oj div D" by (rule div_le_mono)
    with ojd xjl have "(oi + m) div D < length (m_blocks b)" by simp
    from iterator_incs_offset[OF ids D assms(2) at this, of nd] show ?thesis by blast
  qed
  have c2: "\<exists>b' k'. iterator_incs D nd (unat (iter_minus D j i)) b k = Inr (b', k')
           \<and> iter_eq (m_iterators b' ! k') j"
  proof -
    from steps[of "oj - oi"] ole obtain b' k' where
      "iterator_incs D nd (oj - oi) b k = Inr (b', k')"
      "m_iterators b' ! k' = \<lparr>m_block = h + oj div D, m_position = oj mod D\<rparr>"
      by auto
    then show ?thesis using ojd hj n by (auto simp: iter_eq_def)
  qed
  have c3: "\<forall>m<unat (iter_minus D j i).
           \<exists>b' k'. iterator_incs D nd m b k = Inr (b', k') \<and> \<not> iter_eq (m_iterators b' ! k') j"
  proof (intro allI impI)
    fix m assume "m < unat (iter_minus D j i)"
    then have m: "m < oj - oi" using n by simp
    from steps[of m] m obtain b' k' where
      s: "iterator_incs D nd m b k = Inr (b', k')"
         "m_iterators b' ! k' = \<lparr>m_block = h + (oi + m) div D, m_position = (oi + m) mod D\<rparr>"
      by auto
    have "\<not> iter_eq (m_iterators b' ! k') j"
    proof
      assume "iter_eq (m_iterators b' ! k') j"
      with s(2) hj have "(oi + m) div D = xj" "(oi + m) mod D = m_position j"
        by (simp_all add: iter_eq_def)
      then have "oi + m = xj * D + m_position j"
        by (metis div_mod_decomp)
      with m show False by (simp add: oj_def)
    qed
    with s(1) show "\<exists>b' k'. iterator_incs D nd m b k = Inr (b', k')
                      \<and> \<not> iter_eq (m_iterators b' ! k') j" by blast
  qed
  from c1 c2 c3 show ?thesis unfolding i_def by blast
qed

lemma iterator_difference_example:
  "buffer_inv 4 (snd (buffer_begin ex3)) \<and> (0::nat) < length (m_iterators (snd (buffer_begin ex3)))
   \<and> iter_live 4 (snd (buffer_begin ex3)) (m_iterators (snd (buffer_begin ex3)) ! 0)
   \<and> iter_live 4 (snd (buffer_begin ex3)) (end_pos ex3)
   \<and> iter_less (m_iterators (snd (buffer_begin ex3)) ! 0) (end_pos ex3)
   \<and> unat (iter_minus 4 (end_pos ex3) (m_iterators (snd (buffer_begin ex3)) ! 0)) = 9
   \<and> (\<exists>b' k'. iterator_incs 4 False
                 (unat (iter_minus 4 (end_pos ex3) (m_iterators (snd (buffer_begin ex3)) ! 0)))
                 (snd (buffer_begin ex3)) 0 = Inr (b', k')
          \<and> iter_eq (m_iterators b' ! k') (end_pos ex3))"
proof -
  define b where "b = snd (buffer_begin ex3)"
  have inv: "buffer_inv 4 b"
    using ex3_inv by (simp add: b_def buffer_begin_def buffer_inv_def)
  have h: "0 < length (m_iterators b)" "iter_live 4 b (m_iterators b ! 0)"
    "iter_live 4 b (end_pos ex3)"
    "iter_less (m_iterators b ! 0) (end_pos ex3) \<or> iter_eq (m_iterators b ! 0) (end_pos ex3)"
    "(m_block (end_pos ex3) - m_block (m_iterators b ! 0)) * 4 + m_position (end_pos ex3) < 2 ^ 64"
    by (simp_all add: b_def buffer_begin_def iter_live_def iter_less_def begin_pos_def
        end_pos_def ex3_def)
  have v: "(m_block (end_pos ex3) - m_block (m_iterators b ! 0)) * 4 + m_position (end_pos ex3)
             - m_position (m_iterators b ! 0) = 9"
    "iter_less (m_iterators b ! 0) (end_pos ex3)"
    by (simp_all add: b_def buffer_begin_def iter_less_def begin_pos_def end_pos_def ex3_def)
  from iterator_difference[OF inv h, of False]
  have a: "unat (iter_minus 4 (end_pos ex3) (m_iterators b ! 0)) =
             (m_block (end_pos ex3) - m_block (m_iterators b ! 0)) * 4 + m_position (end_pos ex3)
               - m_position (m_iterators b ! 0)"
    and s: "\<exists>b' k'. iterator_incs 4 False
                 (unat (iter_minus 4 (end_pos ex3) (m_iterators b ! 0))) b 0 = Inr (b', k')
          \<and> iter_eq (m_iterators b' ! k') (end_pos ex3)"
    by blast+
  from a v(1) have "unat (iter_minus 4 (end_pos ex3) (m_iterators b ! 0)) = 9" by simp
  with s v(2) inv h(1,2,3) show ?thesis unfolding b_def [symmetric] by blast
qed

subsection \<open>\<^verbatim>\<open>dropFront\<close> and \<^verbatim>\<open>flush\<close>\<close>

lemma filled_drop_blocks:
  assumes lens: "list_all (\<lambda>x. length (data x) = D) bs" and j: "j < length bs"
  shows "concat (map data (butlast (drop j bs))) @ take e (data (last (drop j bs))) =
           drop (j * D) (concat (map data (butlast bs)) @ take e (data (last bs)))"
proof -
  have l1: "last (drop j bs) = last bs" using j by simp
  have l2: "butlast (drop j bs) = drop j (butlast bs)" by (simp add: drop_butlast)
  have lb: "list_all (\<lambda>x. length (data x) = D) (butlast bs)"
    using lens by (auto simp: list_all_iff dest: in_set_butlastD)
  have "j \<le> length (butlast bs)" using j by simp
  then have "j * D \<le> length (butlast bs) * D" by (rule mult_le_mono1)
  then have "j * D \<le> length (concat (map data (butlast bs)))"
    using concat_length_blocks[OF lb] by simp
  then show ?thesis
    unfolding l1 l2 concat_drop_blocks[OF lb] by simp
qed

lemma dropFront_loop_pos:
  assumes lp: "dropFront_loop D nd b sz (D - m_begin b) = Inr (b1, sz')"
    and ne: "m_blocks b \<noteq> []" and bg: "m_begin b \<le> D"
  shows "\<exists>j. m_blocks b1 = drop j (m_blocks b) \<and> j < length (m_blocks b)
           \<and> j * D + (m_begin b1 + sz') = m_begin b + sz \<and> m_begin b1 + sz' \<le> D
           \<and> (0 < sz \<longrightarrow> 0 < m_begin b1 + sz')
           \<and> m_end b1 = m_end b \<and> m_iterators b1 = m_iterators b \<and> m_blockId b1 = m_blockId b"
proof -
  from dropFront_loop_result[OF lp] ne obtain j where
    j1: "m_blocks b1 = drop j (m_blocks b)" and j2: "j < length (m_blocks b)"
    and j3: "m_end b1 = m_end b" "m_blockId b1 = m_blockId b" "m_iterators b1 = m_iterators b"
    and j5: "j = 0 \<longrightarrow> b1 = b \<and> sz' = sz \<and> sz \<le> D - m_begin b"
    and j6: "0 < j \<longrightarrow> m_begin b1 = 0 \<and> 0 < sz' \<and> sz' \<le> D
                    \<and> sz = sz' + (D - m_begin b) + (j - 1) * D"
    by blast
  have pos: "j * D + (m_begin b1 + sz') = m_begin b + sz \<and> m_begin b1 + sz' \<le> D
               \<and> (0 < sz \<longrightarrow> 0 < m_begin b1 + sz')"
  proof (cases "j = 0")
    case True
    with j5 have "b1 = b" "sz' = sz" "sz \<le> D - m_begin b" by blast+
    with True bg show ?thesis by simp
  next
    case False
    with j6 have "m_begin b1 = 0" "0 < sz'" "sz' \<le> D" "sz = sz' + (D - m_begin b) + (j - 1) * D"
      by simp_all
    moreover have "D + (j - 1) * D = j * D" using False by (simp add: mult_eq_if)
    ultimately show ?thesis using bg by simp
  qed
  with j1 j2 j3 show ?thesis by (intro exI[of _ j]) simp
qed

lemma dropFront_result:
  assumes inv: "buffer_inv D b" and r: "dropFront D nd b sz = Inr b'"
  shows "\<exists>j. m_blocks b' = drop j (m_blocks b) \<and> j < length (m_blocks b)
           \<and> j * D + m_begin b' = m_begin b + sz \<and> m_begin b' \<le> D
           \<and> (0 < sz \<longrightarrow> 0 < m_begin b')
           \<and> m_end b' = m_end b \<and> m_iterators b' = m_iterators b \<and> m_blockId b' = m_blockId b
           \<and> content b' = drop sz (content b)"
proof -
  from inv have ne: "m_blocks b \<noteq> []" and bg: "m_begin b \<le> D"
    and lens: "list_all (\<lambda>x. length (data x) = D) (m_blocks b)"
    by (simp_all add: buffer_inv_def)
  from r ne obtain b1 sz' where
    lp: "dropFront_loop D nd b sz (D - m_begin b) = Inr (b1, sz')"
    and b': "b' = b1\<lparr>m_begin := m_begin b1 + sz'\<rparr>"
    by (auto simp: dropFront_def Let_def split: if_splits sum.splits)
  from dropFront_loop_pos[OF lp ne bg] obtain j where
    j1: "m_blocks b1 = drop j (m_blocks b)" and j2: "j < length (m_blocks b)"
    and p1: "j * D + (m_begin b1 + sz') = m_begin b + sz" and p2: "m_begin b1 + sz' \<le> D"
    and p3: "0 < sz \<longrightarrow> 0 < m_begin b1 + sz'"
    and j3: "m_end b1 = m_end b" "m_iterators b1 = m_iterators b" "m_blockId b1 = m_blockId b"
    by blast
  have "filled b' = drop (j * D) (filled b)"
    unfolding filled_def using filled_drop_blocks[OF lens j2, of "m_end b"]
    by (simp add: b' j1 j3)
  then have "content b' = drop (m_begin b' + j * D) (filled b)"
    by (simp add: content_filled)
  also have "m_begin b' + j * D = sz + m_begin b" using p1 by (simp add: b')
  finally have c: "content b' = drop sz (content b)" by (simp add: content_filled)
  from j1 j2 j3 p1 p2 p3 c show ?thesis by (intro exI[of _ j]) (simp add: b')
qed

lemma dropFront_returns:
  assumes inv: "buffer_inv D b" and sz: "0 < sz" "sz \<le> buffer_size D b"
    and its: "nd \<or> m_iterators b = []
        \<or> (m_block (hd (m_iterators b)) = m_blockId b - length (m_blocks b) + i
            \<and> i < length (m_blocks b) \<and> sz \<le> i * D + (D - m_begin b)
            \<and> m_blockId b - length (m_blocks b) \<le> m_block (last (m_iterators b))
            \<and> m_begin b + sz \<le> (m_block (last (m_iterators b))
                                     - (m_blockId b - length (m_blocks b))) * D
                                  + m_position (last (m_iterators b)))"
  shows "\<exists>b'. dropFront D nd b sz = Inr b'"
proof -
  define h where "h = m_blockId b - length (m_blocks b)"
  define n where "n = length (m_blocks b)"
  from inv have ne: "m_blocks b \<noteq> []" and bg: "m_begin b \<le> D" and e: "m_end b < D"
    and ids: "ids_from h (m_blocks b)"
    by (simp_all add: buffer_inv_def h_def)
  have n0: "0 < n" using ne by (simp add: n_def)
  have szn: "sz \<le> (n - 1) * D + (D - m_begin b)"
    using sz(2) e by (simp add: buffer_size_def n_def)
  have "\<exists>r. dropFront_loop D nd b sz (D - m_begin b) = Inr r"
  proof (cases "nd \<or> m_iterators b = []")
    case True
    have "n - 1 < length (m_blocks b)" using n0 by (simp add: n_def)
    from dropFront_loop_returns[OF ids this szn] True show ?thesis by blast
  next
    case False
    with its have f: "m_block (hd (m_iterators b)) = h + i" "i < length (m_blocks b)"
      "sz \<le> i * D + (D - m_begin b)" by (simp_all add: h_def)
    from dropFront_loop_returns[OF ids f(2,3)] f(1) show ?thesis by blast
  qed
  then obtain b1 sz' where
    lp: "dropFront_loop D nd b sz (D - m_begin b) = Inr (b1, sz')" by (metis prod.exhaust)
  show ?thesis
  proof (cases nd)
    case True
    with lp ne show ?thesis by (simp add: dropFront_def Let_def)
  next
    case False
    from dropFront_loop_pos[OF lp ne bg] obtain j where
      j1: "m_blocks b1 = drop j (m_blocks b)" and j2: "j < length (m_blocks b)"
      and p1: "j * D + (m_begin b1 + sz') = m_begin b + sz" and p2: "m_begin b1 + sz' \<le> D"
      and j3: "m_end b1 = m_end b" "m_iterators b1 = m_iterators b"
      by blast
    have hd: "block_id (hd (m_blocks b1)) = h + j"
      using ids_from_nth[OF ids j2] j2 by (simp add: j1 hd_drop_conv_nth)
    have a2: "m_begin b1 + sz' \<le> m_position (last (m_iterators b))"
      if "m_iterators b \<noteq> []" "m_block (last (m_iterators b)) = h + j"
    proof -
      from its False that(1)
      have "m_begin b + sz \<le> (m_block (last (m_iterators b)) - h) * D
                                  + m_position (last (m_iterators b))"
        by (simp add: h_def)
      with that(2) p1 show ?thesis by simp
    qed
    have a3: "m_begin b1 + sz' \<le> m_end b" if "length (m_blocks b1) = 1"
    proof -
      from that j1 j2 have "j = n - 1" by (simp add: n_def)
      moreover have "m_begin b + sz \<le> (n - 1) * D + m_end b"
        using sz by (simp add: buffer_size_def n_def)
      ultimately show ?thesis using p1 by simp
    qed
    from lp ne False p2 a2 a3 hd sz(1) show ?thesis
      by (auto simp: dropFront_def Let_def j3)
  qed
qed

lemma block_offset_unique:
  fixes j x m p D :: nat
  assumes e: "j * D + m = x * D + p" and m: "0 < m" "m \<le> D" and p: "0 < p" "p \<le> D"
  shows "j = x \<and> m = p"
proof -
  have "\<not> j < x"
  proof
    assume "j < x"
    then have "Suc j \<le> x" by simp
    then have "Suc j * D \<le> x * D" by (rule mult_le_mono1)
    with e m p show False by simp
  qed
  moreover have "\<not> x < j"
  proof
    assume "x < j"
    then have "Suc x \<le> j" by simp
    then have "Suc x * D \<le> j * D" by (rule mult_le_mono1)
    with e m p show False by simp
  qed
  ultimately have "j = x" by simp
  with e show ?thesis by simp
qed

lemma flush_empty_registry:
  assumes inv: "buffer_inv D b" and fit: "length (m_blocks b) * D < 2 ^ 64"
    and its: "m_iterators b = []"
  shows "\<exists>b'. flush D nd ord b = Inr b' \<and> content b' = drop (first_distance D b) (content b)
           \<and> content b' = [] \<and> (first_distance D b = 0 \<longrightarrow> b' = b)
           \<and> m_iterators b' = m_iterators b \<and> m_end b' = m_end b"
proof -
  define n where "n = length (m_blocks b)"
  define h where "h = m_blockId b - n"
  from inv have ne: "m_blocks b \<noteq> []" and bg: "m_begin b \<le> D" and e: "m_end b < D"
    and one: "n = 1 \<longrightarrow> m_begin b \<le> m_end b" and len: "n \<le> m_blockId b" and D: "0 < D"
    by (simp_all add: buffer_inv_def n_def)
  have n0: "0 < n" using ne by (simp add: n_def)
  have fd: "first_distance D b = buffer_size D b" using its by (simp add: first_distance_def)
  have bb: "m_block (begin_pos b) = h" "m_position (begin_pos b) = m_begin b"
    using begin_pos_block[OF inv] by (simp_all add: h_def n_def begin_pos_def)
  have eb: "m_block (end_pos b) = h + (n - 1)" "m_position (end_pos b) = m_end b"
    using end_pos_block[OF inv] len n0 by (simp_all add: h_def end_pos_def)
  have le: "m_begin b \<le> (n - 1) * D + m_end b"
  proof (cases "n = 1")
    case True with one show ?thesis by simp
  next
    case False
    with n0 have "1 \<le> n - 1" by simp
    then have "1 * D \<le> (n - 1) * D" by (rule mult_le_mono1)
    then have "D \<le> (n - 1) * D" by simp
    with bg show ?thesis by linarith
  qed
  have "(n - 1) * D + D = n * D" using n0 by (simp add: mult_eq_if)
  with e fit have bound: "(n - 1) * D + m_end b < 2 ^ 64" by (simp add: n_def)
  have u: "unat (iter_minus D (end_pos b) (begin_pos b)) = buffer_size D b"
    using iter_minus_unat[of "begin_pos b" "end_pos b" D] le bound
    by (simp add: bb eb buffer_size_def n_def)
  have fl: "flush D nd ord b =
      (if 0 < buffer_size D b then dropFront D nd b (buffer_size D b) else Inr b)"
    using ne its u by (simp add: flush_def Let_def)
  show ?thesis
  proof (cases "0 < buffer_size D b")
    case False
    then have "content b = []" using content_length[OF inv] by simp
    with False fl fd show ?thesis by simp
  next
    case True
    from dropFront_returns[OF inv True, of nd 0] its obtain b' where
      d: "dropFront D nd b (buffer_size D b) = Inr b'" by auto
    from dropFront_result[OF inv d] have
      "content b' = drop (buffer_size D b) (content b)"
      "m_iterators b' = m_iterators b" "m_end b' = m_end b" by blast+
    moreover have "drop (buffer_size D b) (content b) = []"
      using content_length[OF inv] by simp
    ultimately show ?thesis using True fl fd d by simp
  qed
qed

lemma block_offset_le:
  fixes a c p D :: nat
  assumes "a < c" "p \<le> D"
  shows "a * D + p \<le> c * D"
proof -
  from assms(1) have "Suc a \<le> c" by simp
  then have "Suc a * D \<le> c * D" by (rule mult_le_mono1)
  with assms(2) show ?thesis by simp
qed

lemma flush_first_iterator:
  assumes inv: "buffer_inv D b" and fit: "length (m_blocks b) * D < 2 ^ 64"
    and its: "m_iterators b \<noteq> []"
    and v: "iter_valid D b (hd (m_iterators b))"
    and ge: "iter_less (begin_pos b) (hd (m_iterators b))
               \<or> iter_eq (begin_pos b) (hd (m_iterators b))"
    and le: "iter_less (hd (m_iterators b)) (end_pos b)
               \<or> iter_eq (hd (m_iterators b)) (end_pos b)"
    and srt: "nd \<or> iter_less (hd (m_iterators b)) (last (m_iterators b))
               \<or> iter_eq (hd (m_iterators b)) (last (m_iterators b))"
  shows "\<exists>b'. flush D nd first_then_begin b = Inr b'
           \<and> first_distance D b \<le> length (content b)
           \<and> content b' = drop (first_distance D b) (content b)
           \<and> (first_distance D b = 0 \<longrightarrow> b' = b)
           \<and> m_iterators b' = m_iterators b \<and> m_end b' = m_end b
           \<and> unat (iter_minus D (hd (m_iterators b)) (begin_pos b')) = 0
           \<and> (0 < m_position (hd (m_iterators b))
                \<or> m_block (hd (m_iterators b)) = m_block (begin_pos b)
              \<longrightarrow> iter_eq (begin_pos b') (hd (m_iterators b)))
           \<and> (m_position (hd (m_iterators b)) = 0
                \<and> m_block (hd (m_iterators b)) \<noteq> m_block (begin_pos b)
              \<longrightarrow> begin_pos b' = \<lparr>m_block = m_block (hd (m_iterators b)) - 1,
                                   m_position = D\<rparr>)"
proof -
  define n where "n = length (m_blocks b)"
  define h where "h = m_blockId b - n"
  define it where "it = hd (m_iterators b)"
  define x where "x = m_block it - h"
  define p where "p = m_position it"
  define off where "off = x * D + p"
  define sz where "sz = off - m_begin b"
  from inv have ne: "m_blocks b \<noteq> []" and bg: "m_begin b \<le> D" and e: "m_end b < D"
    and len: "n \<le> m_blockId b" and D: "0 < D"
    and ids: "ids_from h (m_blocks b)"
    by (simp_all add: buffer_inv_def n_def h_def)
  have n0: "0 < n" using ne by (simp add: n_def)
  have bb: "m_block (begin_pos b) = h" "m_position (begin_pos b) = m_begin b"
    using begin_pos_block[OF inv] by (simp_all add: h_def n_def begin_pos_def)
  have eb: "m_block (end_pos b) = h + (n - 1)" "m_position (end_pos b) = m_end b"
    using end_pos_block[OF inv] len n0 by (simp_all add: h_def end_pos_def)
  have hx: "h \<le> m_block it" "m_block it < h + n"
    using iter_valid_index[OF inv, of it] v len
    by (simp_all add: iter_valid_def it_def h_def n_def)
  have mb: "m_block it = h + x" using hx by (simp add: x_def)
  have xn: "x < n" using hx by (simp add: x_def)
  have pD: "p \<le> D" using v by (simp add: iter_valid_def it_def p_def)
  have bo: "m_begin b \<le> off"
  proof (cases "x = 0")
    case True
    with ge mb show ?thesis
      by (auto simp: iter_less_def iter_eq_def bb it_def[symmetric] off_def p_def)
  next
    case False
    then have "0 < x" by simp
    from block_offset_le[OF this bg] show ?thesis by (simp add: off_def)
  qed
  have oe: "off \<le> (n - 1) * D + m_end b"
  proof (cases "x = n - 1")
    case True
    with le mb show ?thesis
      by (auto simp: iter_less_def iter_eq_def eb it_def[symmetric] off_def p_def)
  next
    case False
    with xn have "x < n - 1" by simp
    from block_offset_le[OF this pD] show ?thesis by (simp add: off_def)
  qed
  have "(n - 1) * D + D = n * D" using n0 by (simp add: mult_eq_if)
  with oe e fit have bound: "off < 2 ^ 64" by (simp add: n_def)
  have fd: "first_distance D b = sz"
    using its by (simp add: first_distance_def bb it_def[symmetric] mb sz_def off_def p_def)
  have u: "unat (iter_minus D it (begin_pos b)) = sz"
    using iter_minus_unat[of "begin_pos b" it D] bo bound
    by (simp add: bb mb sz_def off_def p_def)
  have fl: "flush D nd first_then_begin b = (if 0 < sz then dropFront D nd b sz else Inr b)"
    using ne its u by (simp add: flush_def Let_def buffer_begin_def it_def[symmetric])
  have szb: "sz \<le> buffer_size D b" using oe by (simp add: sz_def buffer_size_def n_def)
  have fl': "first_distance D b \<le> length (content b)"
    using szb fd content_length[OF inv] by simp
  show ?thesis
  proof (cases "0 < sz")
    case False
    then have om: "off = m_begin b" using bo by (simp add: sz_def)
    have c1: "iter_eq (begin_pos b) it" if "0 < p \<or> m_block it = h"
    proof (cases "x = 0")
      case True
      with om mb show ?thesis by (simp add: iter_eq_def bb off_def p_def)
    next
      case False
      with that mb have "0 < p" "0 < x" by simp_all
      from block_offset_le[OF this(2), of D D] have "D \<le> x * D" by simp
      with om \<open>0 < p\<close> bg show ?thesis by (simp add: off_def)
    qed
    have c2: "begin_pos b = \<lparr>m_block = m_block it - 1, m_position = D\<rparr>"
      if "p = 0" "m_block it \<noteq> h"
    proof -
      from that mb have x0: "0 < x" by simp
      have "x = 1"
      proof (rule ccontr)
        assume "x \<noteq> 1"
        with x0 have "1 < x" by simp
        from block_offset_le[OF this, of D D] D om that(1) bg show False by (simp add: off_def)
      qed
      with om that(1) mb show ?thesis
        using bb by (cases "begin_pos b") (simp add: off_def)
    qed
    from False fl fd fl' u c1 c2 show ?thesis
      by (simp add: it_def[symmetric] p_def[symmetric] bb)
  next
    case True
    have "\<exists>b'. dropFront D nd b sz = Inr b'"
    proof (rule dropFront_returns[OF inv True szb, of nd x])
      show "nd \<or> m_iterators b = [] \<or>
        m_block (hd (m_iterators b)) = m_blockId b - length (m_blocks b) + x \<and>
        x < length (m_blocks b) \<and> sz \<le> x * D + (D - m_begin b) \<and>
        m_blockId b - length (m_blocks b) \<le> m_block (last (m_iterators b)) \<and>
        m_begin b + sz
        \<le> (m_block (last (m_iterators b)) - (m_blockId b - length (m_blocks b))) * D +
           m_position (last (m_iterators b))"
      proof (cases nd)
        case True then show ?thesis by simp
      next
        case False
        define l where "l = last (m_iterators b)"
        from srt False have s: "iter_less it l \<or> iter_eq it l" by (simp add: it_def l_def)
        then have hl: "h \<le> m_block l" using hx by (auto simp: iter_less_def iter_eq_def)
        have ol: "off \<le> (m_block l - h) * D + m_position l"
        proof (cases "m_block l = m_block it")
          case True
          with s show ?thesis by (auto simp: iter_less_def iter_eq_def off_def x_def p_def)
        next
          case False
          with s have "x < m_block l - h" using hx
            by (auto simp: iter_less_def iter_eq_def x_def)
          from block_offset_le[OF this pD] show ?thesis by (simp add: off_def)
        qed
        have "sz \<le> x * D + (D - m_begin b)" using pD bg by (simp add: sz_def off_def)
        moreover have "m_begin b + sz = off" using bo by (simp add: sz_def)
        ultimately have "m_block it = h + x \<and> x < n \<and> sz \<le> x * D + (D - m_begin b)
            \<and> h \<le> m_block l \<and> m_begin b + sz \<le> (m_block l - h) * D + m_position l"
          using mb xn hl ol by simp
        then show ?thesis unfolding h_def n_def it_def l_def by blast
      qed
    qed
    then obtain b' where d: "dropFront D nd b sz = Inr b'" by blast
    from dropFront_result[OF inv d] True obtain j where
      j1: "m_blocks b' = drop j (m_blocks b)" and j2: "j < length (m_blocks b)"
      and p1: "j * D + m_begin b' = m_begin b + sz" and p2: "m_begin b' \<le> D"
      and p3: "0 < m_begin b'"
      and j3: "m_end b' = m_end b" "m_iterators b' = m_iterators b"
      and c: "content b' = drop sz (content b)"
      by blast
    have p1': "j * D + m_begin b' = x * D + p" using p1 bo by (simp add: sz_def off_def)
    have bb': "begin_pos b' = \<lparr>m_block = h + j, m_position = m_begin b'\<rparr>"
      using ids_from_nth[OF ids j2] j2 by (simp add: begin_pos_def j1 hd_drop_conv_nth)
    have pos: "(0 < p \<longrightarrow> j = x \<and> m_begin b' = p)
                 \<and> (p = 0 \<longrightarrow> 0 < x \<and> j = x - 1 \<and> m_begin b' = D)"
    proof (cases "p = 0")
      case False
      with block_offset_unique[OF p1' p3 p2 _ pD] show ?thesis by simp
    next
      case True
      have x0: "0 < x"
      proof (rule ccontr)
        assume "\<not> 0 < x"
        with True have "off = 0" by (simp add: off_def)
        with \<open>0 < sz\<close> show False by (simp add: sz_def)
      qed
      then have "x * D = (x - 1) * D + D" by (simp add: mult_eq_if)
      with p1' True have "j * D + m_begin b' = (x - 1) * D + D" by simp
      from block_offset_unique[OF this p3 p2 D] x0 True show ?thesis by simp
    qed
    have z: "unat (iter_minus D it (begin_pos b')) = 0"
    proof (cases "p = 0")
      case False
      with pos have "j = x" "m_begin b' = p" by simp_all
      then show ?thesis
        using iter_minus_unat[of "begin_pos b'" it D] bound
        by (simp add: bb' mb p_def off_def)
    next
      case True
      with pos have q: "0 < x" "j = x - 1" "m_begin b' = D" by simp_all
      then have "m_block it - (h + j) = 1" using mb by simp
      moreover have "D < 2 ^ 64" using fit n0 D
        by (metis le_less_trans mult.commute mult_le_mono2 n_def nat_mult_1_right Suc_leI One_nat_def)
      ultimately show ?thesis
        using iter_minus_unat[of "begin_pos b'" it D] q True mb
        by (simp add: bb' p_def[symmetric])
    qed
    have c1: "iter_eq (begin_pos b') it" if "0 < p \<or> m_block it = h"
    proof -
      from that mb pos have "0 < p" by auto
      with pos mb show ?thesis by (simp add: iter_eq_def bb' p_def)
    qed
    have c2: "begin_pos b' = \<lparr>m_block = m_block it - 1, m_position = D\<rparr>"
      if "p = 0"
      using that pos mb by (simp add: bb')
    from True fl fd fl' d c j3 z c1 c2 show ?thesis
      by (simp add: it_def[symmetric] p_def[symmetric] bb)
  qed
qed

lemma flush_begin_then_first:
  assumes "m_blocks b \<noteq> []" and "m_iterators b \<noteq> []"
  shows "flush D nd begin_then_first b = Inr b"
  using assms by (simp add: flush_def buffer_begin_def iter_minus_def Let_def)

lemma ex_it_reached: "reachable 4 nd ex_it"
proof -
  define b1 where "b1 = \<lparr>m_blocks = [\<lparr>block_id = 0, data = ''abcd''\<rparr>,
      \<lparr>block_id = 1, data = ''ef__''\<rparr>], m_iterators = [], m_blockId = 2,
      m_begin = 0, m_end = 2, m_all = [''----'']\<rparr>"
  have r0: "reachable 4 nd ex0" using ex0_reached by (rule reachable.r_Buffer)
  have "addBack 4 nd ex0 ''abcdef'' = Inr b1"
    by (simp add: addBack_def addBack_loop.simps ex0_def b1_def Let_def newBlock_def
        allocate_def memcpy_def write_block_def)
  with r0 have r1: "reachable 4 nd b1" by (rule reachable.r_addBack)
  then have r2: "reachable 4 nd (snd (buffer_begin b1))" by (rule reachable.r_begin)
  have "iterator_add 4 nd (snd (buffer_begin b1)) 0 4 = Inr (ex_it, 0)"
    by (simp add: iterator_add_def buffer_begin_def begin_pos_def b1_def moveForward_def
        adjustPositionForward_def ex_it_def Let_def blocks_from_def)
  with r2 show ?thesis by (rule reachable.r_iterator_add)
qed

text \<open>
  \<^verbatim>\<open>flush()\<close> when \<^verbatim>\<open>m_iterators.first()\<close> is evaluated before \<^verbatim>\<open>begin()\<close>.  It returns; it
  drops exactly the bytes from the head up to the position of the first registered
  iterator, or up to \<^verbatim>\<open>end()\<close> when the registry is empty, and then no byte is left; it
  changes nothing when that distance is zero.  Afterwards the first registered iterator
  is at distance zero from \<^verbatim>\<open>begin()\<close>.  \<^verbatim>\<open>begin()\<close> equals it when it lies behind the first
  byte of its block or in the old head block; when it lies at the first byte of a later
  block, \<^verbatim>\<open>begin()\<close> is the end of the block in front of it.  The first registered
  iterator is taken to lie between \<^verbatim>\<open>begin()\<close> and \<^verbatim>\<open>end()\<close> and, for the assertions of a
  debug build, not behind the last registered one; the buffer is taken to fit
  \<^verbatim>\<open>size_t\<close>.
\<close>

lemma flush_first_then_begin:
  assumes "buffer_inv D b" and "length (m_blocks b) * D < 2 ^ 64"
    and "m_iterators b \<noteq> [] \<longrightarrow>
           iter_valid D b (hd (m_iterators b))
           \<and> (iter_less (begin_pos b) (hd (m_iterators b))
                \<or> iter_eq (begin_pos b) (hd (m_iterators b)))
           \<and> (iter_less (hd (m_iterators b)) (end_pos b)
                \<or> iter_eq (hd (m_iterators b)) (end_pos b))
           \<and> (nd \<or> iter_less (hd (m_iterators b)) (last (m_iterators b))
                \<or> iter_eq (hd (m_iterators b)) (last (m_iterators b)))"
  shows "\<exists>b'. flush D nd first_then_begin b = Inr b'
     \<and> first_distance D b \<le> length (content b)
     \<and> content b' = drop (first_distance D b) (content b)
     \<and> (first_distance D b = 0 \<longrightarrow> b' = b)
     \<and> m_iterators b' = m_iterators b
     \<and> (m_iterators b = [] \<longrightarrow> content b' = [])
     \<and> (m_iterators b \<noteq> [] \<longrightarrow>
          unat (iter_minus D (hd (m_iterators b)) (begin_pos b')) = 0
          \<and> (0 < m_position (hd (m_iterators b))
               \<or> m_block (hd (m_iterators b)) = m_block (begin_pos b)
             \<longrightarrow> iter_eq (begin_pos b') (hd (m_iterators b)))
          \<and> (m_position (hd (m_iterators b)) = 0
               \<and> m_block (hd (m_iterators b)) \<noteq> m_block (begin_pos b)
             \<longrightarrow> begin_pos b' = \<lparr>m_block = m_block (hd (m_iterators b)) - 1,
                                  m_position = D\<rparr>))"
proof (cases "m_iterators b = []")
  case True
  have "first_distance D b \<le> length (content b)"
    using True content_length[OF assms(1)] by (simp add: first_distance_def)
  with flush_empty_registry[OF assms(1,2) True, of nd first_then_begin] True show ?thesis by auto
next
  case False
  with assms(3) have
    v: "iter_valid D b (hd (m_iterators b))"
    and ge: "iter_less (begin_pos b) (hd (m_iterators b))
               \<or> iter_eq (begin_pos b) (hd (m_iterators b))"
    and le: "iter_less (hd (m_iterators b)) (end_pos b)
               \<or> iter_eq (hd (m_iterators b)) (end_pos b)"
    and srt: "nd \<or> iter_less (hd (m_iterators b)) (last (m_iterators b))
               \<or> iter_eq (hd (m_iterators b)) (last (m_iterators b))"
    by blast+
  from flush_first_iterator[OF assms(1,2) False v ge le srt] obtain b' where
    f: "flush D nd first_then_begin b = Inr b'" and f1: "first_distance D b \<le> length (content b)"
     and f2: "content b' = drop (first_distance D b) (content b)"
     and f3: "first_distance D b = 0 \<longrightarrow> b' = b" and f4: "m_iterators b' = m_iterators b"
     and f5: "unat (iter_minus D (hd (m_iterators b)) (begin_pos b')) = 0"
     and f6: "0 < m_position (hd (m_iterators b))
               \<or> m_block (hd (m_iterators b)) = m_block (begin_pos b)
             \<longrightarrow> iter_eq (begin_pos b') (hd (m_iterators b))"
     and f7: "m_position (hd (m_iterators b)) = 0
               \<and> m_block (hd (m_iterators b)) \<noteq> m_block (begin_pos b)
             \<longrightarrow> begin_pos b' = \<lparr>m_block = m_block (hd (m_iterators b)) - 1,
                                  m_position = D\<rparr>"
    by (elim exE conjE)
  show ?thesis
    using False f f1 f2 f3 f4 f5 f6 f7 by (intro exI[of _ b']) simp
qed

lemma ex_it_dropFront: "dropFront 4 nd ex_it 4 = Inr (ex_it\<lparr>m_begin := 4\<rparr>)"
  by (simp add: dropFront_def dropFront_loop.simps[of 4 nd _ 4 4] ex_it_def Let_def)

lemma ex_edge_reached: "reachable 4 nd ex_edge"
proof -
  note ex_it_dropFront[of nd]
  with ex_it_reached have "reachable 4 nd (ex_it\<lparr>m_begin := 4\<rparr>)"
    by (rule reachable.r_dropFront)
  then have "reachable 4 nd (snd (buffer_begin (ex_it\<lparr>m_begin := 4\<rparr>)))"
    by (rule reachable.r_begin)
  moreover have "snd (buffer_begin (ex_it\<lparr>m_begin := 4\<rparr>)) = ex_edge"
    by (simp add: buffer_begin_def begin_pos_def ex_it_def ex_edge_def)
  ultimately show ?thesis by simp
qed

text \<open>
  Claim C7.  With \<open>DATA_SIZE = 4\<close>, the bytes \<open>abcdef\<close> in two blocks and the one registered
  iterator at the first byte of the second block (the state \<open>ex_it\<close>, which the calls of
  the buffer reach), four bytes lie in front of the iterator.  When \<^verbatim>\<open>begin()\<close> is
  evaluated before \<^verbatim>\<open>m_iterators.first()\<close>, \<^verbatim>\<open>flush()\<close> drops nothing.  When
  \<^verbatim>\<open>m_iterators.first()\<close> is evaluated first, \<^verbatim>\<open>flush()\<close> drops the four bytes and leaves
  \<^verbatim>\<open>m_begin\<close> at the end of the first block: \<^verbatim>\<open>begin()\<close> is not equal to the iterator, and
  \<^verbatim>\<open>debugSelfCheck\<close> flags the iterator that \<^verbatim>\<open>begin()\<close> registers there.
\<close>

theorem flush_at_block_boundary:
  "m_iterators ex_it = [\<lparr>m_block = 1, m_position = 0\<rparr>]
   \<and> content ex_it = ''abcdef'' \<and> first_distance 4 ex_it = 4
   \<and> flush 4 nd begin_then_first ex_it = Inr ex_it
   \<and> flush 4 nd first_then_begin ex_it = Inr (ex_it\<lparr>m_begin := 4\<rparr>)
   \<and> content (ex_it\<lparr>m_begin := 4\<rparr>) = ''ef''
   \<and> begin_pos (ex_it\<lparr>m_begin := 4\<rparr>) = \<lparr>m_block = 0, m_position = 4\<rparr>
   \<and> \<not> iter_eq (begin_pos (ex_it\<lparr>m_begin := 4\<rparr>)) \<lparr>m_block = 1, m_position = 0\<rparr>
   \<and> snd (buffer_begin (ex_it\<lparr>m_begin := 4\<rparr>)) = ex_edge
   \<and> debugSelfCheck 4 ex_it = 0 \<and> debugSelfCheck 4 ex_edge = 4"
proof -
  have "iter_minus 4 \<lparr>m_block = 1, m_position = 0\<rparr> \<lparr>m_block = 0, m_position = 0\<rparr> = 4"
    by (simp add: iter_minus_def)
  then have "flush 4 nd first_then_begin ex_it = dropFront 4 nd ex_it 4"
    by (simp add: flush_def ex_it_def begin_pos_def buffer_begin_def)
  then have "flush 4 nd first_then_begin ex_it = Inr (ex_it\<lparr>m_begin := 4\<rparr>)"
    by (simp only: ex_it_dropFront)
  moreover have "flush 4 nd begin_then_first ex_it = Inr ex_it"
    by (rule flush_begin_then_first) (simp_all add: ex_it_def)
  moreover have "debugSelfCheck 4 ex_it = 0" "debugSelfCheck 4 ex_edge = 4"
    by (simp_all add: debugSelfCheck_def ex_it_def ex_edge_def)
  ultimately show ?thesis
    by (simp add: ex_it_def ex_edge_def first_distance_def begin_pos_def content_def
        iter_eq_def buffer_begin_def)
qed

subsection \<open>An iterator at the end of a block\<close>

text \<open>
  Claim C3.  With \<open>DATA_SIZE = 4\<close> and the state \<open>ex_it\<close>, \<^verbatim>\<open>dropFront(4)\<close> returns and leaves
  \<^verbatim>\<open>m_begin\<close> at the end of the first block, and \<^verbatim>\<open>begin()\<close> then registers an iterator
  \<open>i\<close> at that position, which \<^verbatim>\<open>debugSelfCheck\<close> flags (the state \<open>ex_edge\<close>).  For \<open>i\<close> and
  the iterator \<open>j\<close> at the first byte of the second block, \<open>i < j\<close> holds and \<open>j - i\<close> is
  zero, as the formula says, but \<open>i\<close> and \<open>j\<close> are not equal, and \<^verbatim>\<open>++i\<close> does not move \<open>i\<close>
  to \<open>j\<close>: with assertions it stops in \<^verbatim>\<open>moveForward\<close>, without them \<open>i\<close> lands behind \<open>j\<close>
  on the second byte of the second block.
\<close>

theorem iterator_difference_at_block_end:
  "dropFront 4 nd ex_it 4 = Inr (ex_it\<lparr>m_begin := 4\<rparr>)
   \<and> snd (buffer_begin (ex_it\<lparr>m_begin := 4\<rparr>)) = ex_edge
   \<and> m_iterators ex_edge = [\<lparr>m_block = 0, m_position = 4\<rparr>, \<lparr>m_block = 1, m_position = 0\<rparr>]
   \<and> debugSelfCheck 4 ex_edge = 4
   \<and> iter_less \<lparr>m_block = 0, m_position = 4\<rparr> \<lparr>m_block = 1, m_position = 0\<rparr>
   \<and> \<not> iter_eq \<lparr>m_block = 0, m_position = 4\<rparr> \<lparr>m_block = 1, m_position = 0\<rparr>
   \<and> unat (iter_minus 4 \<lparr>m_block = 1, m_position = 0\<rparr> \<lparr>m_block = 0, m_position = 4\<rparr>) = 0
   \<and> iterator_inc 4 False ex_edge 0 = Inl assertion_failed
   \<and> iterator_inc 4 True ex_edge 0 =
        Inr (ex_edge\<lparr>m_iterators := [\<lparr>m_block = 1, m_position = 0\<rparr>,
                                       \<lparr>m_block = 1, m_position = 1\<rparr>]\<rparr>, 1)
   \<and> iter_less \<lparr>m_block = 1, m_position = 0\<rparr> \<lparr>m_block = 1, m_position = 1\<rparr>"
proof -
  note ex_it_dropFront[of nd]
  moreover have "snd (buffer_begin (ex_it\<lparr>m_begin := 4\<rparr>)) = ex_edge"
    by (simp add: buffer_begin_def begin_pos_def ex_it_def ex_edge_def)
  moreover have "debugSelfCheck 4 ex_edge = 4"
    by (simp add: debugSelfCheck_def ex_edge_def)
  moreover have
    "unat (iter_minus 4 \<lparr>m_block = 1, m_position = 0\<rparr> \<lparr>m_block = 0, m_position = 4\<rparr>) = 0"
    by (simp add: iter_minus_def)
  moreover have "iterator_inc 4 False ex_edge 0 = Inl assertion_failed"
    by (simp add: iterator_inc_def iterator_add_def moveForward_def ex_edge_def)
  moreover have "iterator_inc 4 True ex_edge 0 =
        Inr (ex_edge\<lparr>m_iterators := [\<lparr>m_block = 1, m_position = 0\<rparr>,
                                       \<lparr>m_block = 1, m_position = 1\<rparr>]\<rparr>, 1)"
    by (simp add: iterator_inc_def iterator_add_def moveForward_def blocks_from_def
        adjustPositionForward_def iter_less_def ex_edge_def Let_def)
  ultimately show ?thesis
    by (simp add: ex_edge_def iter_less_def iter_eq_def)
qed

subsection \<open>\<^verbatim>\<open>insert\<close> followed by \<^verbatim>\<open>release\<close>\<close>

lemma ex8_reached: "reachable 8 nd ex8"
proof -
  define b0 where "b0 = \<lparr>m_blocks = [\<lparr>block_id = 0, data = ''........''\<rparr>], m_iterators = [],
      m_blockId = 1, m_begin = 0, m_end = 0, m_all = [''________'']\<rparr>"
  define b1 where "b1 = b0\<lparr>m_blocks := [\<lparr>block_id = 0, data = ''ABCDEF..''\<rparr>], m_end := 6\<rparr>"
  have "Buffer [''........'', ''________''] = Some b0"
    by (simp add: Buffer_def newBlock_def allocate_def b0_def)
  then have r0: "reachable 8 nd b0" by (rule reachable.r_Buffer)
  have "addBack 8 nd b0 ''ABCDEF'' = Inr b1"
    by (simp add: addBack_def b0_def b1_def Let_def memcpy_def write_block_def)
  with r0 have "reachable 8 nd b1" by (rule reachable.r_addBack)
  then have r2: "reachable 8 nd (snd (buffer_begin b1))" by (rule reachable.r_begin)
  have "iterator_add 8 nd (snd (buffer_begin b1)) 0 2 = Inr (ex8, 0)"
    by (simp add: iterator_add_def buffer_begin_def begin_pos_def b0_def b1_def moveForward_def
        adjustPositionForward_def ex8_def Let_def blocks_from_def)
  with r2 show ?thesis by (rule reachable.r_iterator_add)
qed

lemma ex8_insert:
  "insert_buf 8 nd ex8 \<lparr>m_block = 0, m_position = 2\<rparr> 3 =
     Inr \<lparr>m_blocks = [\<lparr>block_id = 0, data = ''ABCDEABC''\<rparr>, \<lparr>block_id = 1, data = ''F_______''\<rparr>],
          m_iterators = [\<lparr>m_block = 0, m_position = 2\<rparr>], m_blockId = 2,
          m_begin = 0, m_end = 1, m_all = []\<rparr>"
  by (simp add: insert_buf_def ex8_def addBack_Advance_def advance_loop.simps newBlock_def
      allocate_def insert_data_def insert_loop.simps memmove_def src_block_begin_def
      iter_eq_def Let_def write_block_def)

lemma ex8_release:
  "release 8 True
     \<lparr>m_blocks = [\<lparr>block_id = 0, data = ''ABCDEABC''\<rparr>, \<lparr>block_id = 1, data = ''F_______''\<rparr>],
      m_iterators = [\<lparr>m_block = 0, m_position = 2\<rparr>], m_blockId = 2,
      m_begin = 0, m_end = 1, m_all = []\<rparr> \<lparr>m_block = 0, m_position = 2\<rparr> 3 =
     Inr \<lparr>m_blocks = [\<lparr>block_id = 0, data = ''ABABCF__''\<rparr>],
          m_iterators = [\<lparr>m_block = 0, m_position = 2\<rparr>], m_blockId = 1,
          m_begin = 0, m_end = 6, m_all = [''________'']\<rparr>"
  by (simp add: release_def release_data_def release_locate.simps
      release_loop.simps memmove_def iter_eq_def dropBack_def dropBack_loop.simps
      delBlockAndPrev_def delBlock_def deallocate_def Let_def write_block_def)

lemma ex8_release_debug:
  "release 8 False
     \<lparr>m_blocks = [\<lparr>block_id = 0, data = ''ABCDEABC''\<rparr>, \<lparr>block_id = 1, data = ''F_______''\<rparr>],
      m_iterators = [\<lparr>m_block = 0, m_position = 2\<rparr>], m_blockId = 2,
      m_begin = 0, m_end = 1, m_all = []\<rparr> \<lparr>m_block = 0, m_position = 2\<rparr> 3 =
     Inl assertion_failed"
  by (simp add: release_def release_data_def release_locate.simps
      release_loop.simps memmove_def iter_eq_def dropBack_def dropBack_loop.simps
      delBlockAndPrev_def delBlock_def deallocate_def Let_def write_block_def)

lemma ex8_inv: "buffer_inv 8 ex8"
  by (simp add: ex8_def buffer_inv_def)

text \<open>
  Claim C6.  With \<open>DATA_SIZE = 8\<close>, the bytes \<open>ABCDEF\<close> in one block and a registered live
  iterator at the third byte (the state \<open>ex8\<close>, which the calls of the buffer reach),
  \<^verbatim>\<open>insert(i, 3)\<close> followed by \<^verbatim>\<open>release(i, 3)\<close> is not the identity on the bytes of
  the buffer.  The append crosses into a new block, and
  \<^verbatim>\<open>insert\<close> then copies the three bytes from the begin of the iterator's block, \<open>ABC\<close>,
  not the three bytes from the iterator on, \<open>CDE\<close>.  Without assertions the pair leaves
  \<open>ABABCF\<close>; with assertions \<^verbatim>\<open>insert\<close> returns the same buffer and \<^verbatim>\<open>release\<close> stops in
  the loop of \<^verbatim>\<open>dropBack\<close>, whose assertion looks at the block in front of the freed one.
\<close>

theorem insert_release_overwrites:
  "m_iterators ex8 = [\<lparr>m_block = 0, m_position = 2\<rparr>]
   \<and> iter_live 8 ex8 \<lparr>m_block = 0, m_position = 2\<rparr>
   \<and> content ex8 = ''ABCDEF''
   \<and> insert_buf 8 nd ex8 \<lparr>m_block = 0, m_position = 2\<rparr> 3 =
        Inr \<lparr>m_blocks = [\<lparr>block_id = 0, data = ''ABCDEABC''\<rparr>,
                         \<lparr>block_id = 1, data = ''F_______''\<rparr>],
             m_iterators = [\<lparr>m_block = 0, m_position = 2\<rparr>], m_blockId = 2,
             m_begin = 0, m_end = 1, m_all = []\<rparr>
   \<and> insert_release 8 True ex8 \<lparr>m_block = 0, m_position = 2\<rparr> 3 =
        Inr (ex8\<lparr>m_blocks := [\<lparr>block_id = 0, data = ''ABABCF__''\<rparr>]\<rparr>)
   \<and> content (ex8\<lparr>m_blocks := [\<lparr>block_id = 0, data = ''ABABCF__''\<rparr>]\<rparr>) = ''ABABCF''
   \<and> insert_release 8 False ex8 \<lparr>m_block = 0, m_position = 2\<rparr> 3 = Inl assertion_failed"
proof -
  have "insert_release 8 True ex8 \<lparr>m_block = 0, m_position = 2\<rparr> 3 =
        Inr (ex8\<lparr>m_blocks := [\<lparr>block_id = 0, data = ''ABABCF__''\<rparr>]\<rparr>)"
    unfolding insert_release_def ex8_insert sum.case ex8_release by (simp add: ex8_def)
  moreover have "insert_release 8 False ex8 \<lparr>m_block = 0, m_position = 2\<rparr> 3 =
        Inl assertion_failed"
    unfolding insert_release_def ex8_insert sum.case ex8_release_debug by (rule refl)
  moreover have "iter_live 8 ex8 \<lparr>m_block = 0, m_position = 2\<rparr>"
    "content ex8 = ''ABCDEF''"
    "content (ex8\<lparr>m_blocks := [\<lparr>block_id = 0, data = ''ABABCF__''\<rparr>]\<rparr>) = ''ABABCF''"
    "m_iterators ex8 = [\<lparr>m_block = 0, m_position = 2\<rparr>]"
    by (simp_all add: ex8_def iter_live_def content_def)
  ultimately show ?thesis using ex8_insert[of nd] by simp
qed

end
